theory Spec2Isabelle
  imports Main
begin

section \<open>The auto-sync service of the extension (autoSyncService.ts)\<close>

text \<open>
  The class \<open>AutoSyncService\<close> runs on the single-threaded event loop of the extension
  host. An \<open>async\<close> method runs synchronously up to its first pending \<open>await\<close>; it is
  resumed when the awaited git process settles. The model is therefore a state record
  and a step function over events: the calls of the public methods, the ticks of the
  interval timer, the settling of the git process one project's task is waiting for, and
  the resumption of a \<open>start()\<close> that awaited a promise already fulfilled. Everything
  between two suspension points happens inside one step.
\<close>

subsection \<open>Data\<close>

text \<open>A thrown error or the reason of a rejected promise is \<open>Inl\<close> of its message.\<close>

type_synonym 'a js_result = "string + 'a"

text \<open>\<open>interface AutoSyncConfig\<close>.\<close>

record auto_sync_config =
  enabled :: bool
  intervalMinutes :: int
  autoMerge :: bool
  notifyOnUpdates :: bool
  runOnStartup :: bool

text \<open>
  The fields of \<open>ProjectInfo\<close> (contextManager.ts) that the service reads. The project's
  \<open>enabled\<close> flag is called \<open>projectEnabled\<close> here, since a record field is a constant
  and the configuration has an \<open>enabled\<close> of its own.
\<close>

record project_info =
  name :: string
  folderPath :: string
  projectEnabled :: bool

text \<open>
  What the service asks of its surroundings, fixed for a run:
  \<open>getConfig\<close> is \<open>vscode.workspace.getConfiguration('cursorContexts.autoSync')\<close> with
  the defaults filled in, \<open>getProjects\<close> is \<open>contextManager.getProjects()\<close>,
  \<open>existsGit p\<close> is \<open>fs.existsSync(path.join(p, '.git'))\<close>, \<open>execFileGit args cwd\<close> is how
  the process \<open>execFileAsync('git', args, {cwd})\<close> settles (its stdout, or the rejection),
  \<open>updateGitProject n\<close> is how \<open>contextManager.updateGitProject(n)\<close> settles (it throws
  when the registry has no metadata for \<open>n\<close>), and \<open>now\<close> is \<open>new Date()\<close>.
\<close>

record world =
  getConfig :: auto_sync_config
  getProjects :: "project_info list"
  existsGit :: "string \<Rightarrow> bool"
  execFileGit :: "string list \<Rightarrow> string \<Rightarrow> string js_result"
  updateGitProject :: "string \<Rightarrow> unit js_result"
  now :: nat

text \<open>
  Objects of the JavaScript heap that the claims distinguish: the \<open>Set\<close> of the
  service (its elements in insertion order) and the arrays \<open>Array.from\<close> allocates.
\<close>

datatype js_object = SetObject "string list" | ArrayObject "string list"

text \<open>
  The messages shown through \<open>vscode.window\<close>, one constructor for each template string:
  \<^item> \<open>AutoSynced n\<close>: showInformationMessage "Auto-synced: n" with the action Show Changes
    (pullProject, success);
  \<^item> \<open>AutoSyncFailed n e\<close>: showErrorMessage "Failed to auto-sync n: e" (pullProject, catch);
  \<^item> \<open>AutoSyncedAggregate c ns\<close>: showInformationMessage "Auto-synced c project(s): ns"
    with the action Show Changes (notifyUpdatesAvailable, autoMerged);
  \<^item> \<open>UpdatesAvailable c ns\<close>: showInformationMessage "c project(s) have updates: ns" with
    the actions Sync Now, Show Changes, Dismiss (notifyUpdatesAvailable, otherwise).
\<close>

datatype message =
    AutoSynced string
  | AutoSyncFailed string string
  | AutoSyncedAggregate nat "string list"
  | UpdatesAvailable nat "string list"

text \<open>The calls of \<open>console.error\<close>, one constructor for each call site.\<close>

datatype console_entry =
    ErrorCheckingForUpdates string
  | FailedToCheck string string
  | FailedToPull string string

text \<open>The text of the status bar item: never set, "n updates", or "Synced".\<close>

datatype status_text = NoText | UpdatesText nat | SyncedText

text \<open>
  One element of \<open>updatePromises\<close>: the async arrow function of \<open>gitProjects.map\<close> for
  one project. It is waiting for the fetch, the rev-list or the pull to settle, or its
  promise has settled.
\<close>

datatype stage = AwaitFetch | AwaitRevList | AwaitPull | Settled "unit js_result"

record task =
  project :: project_info
  stage :: stage

text \<open>
  Who awaits the promise of a \<open>checkForUpdates()\<close> call: \<open>start()\<close> does (and continues
  with the configuration it read), the timer callback and a bare call do not.
\<close>

datatype awaiter = Detached | FromStart auto_sync_config

text \<open>
  One invocation of \<open>checkForUpdates()\<close> that went past its early return: its local
  constant \<open>config\<close>, its local counter \<open>updatesFound\<close>, its \<open>updatePromises\<close>, who awaits
  it, and how its own promise settled (\<open>None\<close> while it is pending).
\<close>

record cycle =
  config :: auto_sync_config
  updatesFound :: nat
  tasks :: "task list"
  awaitedBy :: awaiter
  outcome :: "unit js_result option"

text \<open>
  The state: the private fields of the service (\<open>intervalId\<close>, the status bar item,
  \<open>lastCheckTime\<close>, the reference \<open>projectsWithUpdates\<close> to the Set), the heap, the
  interval timers the host has armed (identifier and delay in milliseconds), and what
  the service did to its surroundings, in order: the git processes spawned, the calls
  of \<open>contextManager.updateGitProject\<close>, the messages shown and the \<open>console.error\<close>
  calls. \<open>cycles\<close> holds the invocations of \<open>checkForUpdates()\<close>, oldest first, and
  \<open>pendingStarts\<close> the \<open>start()\<close> calls that wait to go on after a check that returned
  at once, each with the configuration it read.
  The tooltip of the status bar and the \<open>console.log\<close> calls are left out.
\<close>

record state =
  intervalId :: "nat option"
  statusBarVisible :: bool
  statusBarText :: status_text
  lastCheckTime :: "nat option"
  projectsWithUpdates :: nat
  heap :: "nat \<Rightarrow> js_object option"
  nextRef :: nat
  timers :: "(nat \<times> int) list"
  nextTimerId :: nat
  gitLog :: "(string list \<times> string) list"
  registryLog :: "string list"
  messages :: "message list"
  consoleErrors :: "console_entry list"
  cycles :: "cycle list"
  pendingStarts :: "auto_sync_config list"

text \<open>
  What an async function did when it was run up to its next suspension: it is suspended
  at an \<open>await\<close> (\<open>Suspend\<close>, with where), it returned, or it threw.
\<close>

datatype ('p, 'a) completion = Suspend 'p | Return 'a | Throw string

datatype event =
    Call_start
  | Call_stop
  | Call_checkForUpdates
  | TimerTick nat
  | Settle nat nat
  | Resume_start

subsection \<open>The Set and the constructor\<close>

definition Set_elems :: "state \<Rightarrow> string list" where
  "Set_elems s =
     (case heap s (projectsWithUpdates s) of
        Some (SetObject xs) \<Rightarrow> xs
      | _ \<Rightarrow> [])"

definition Set_clear :: "state \<Rightarrow> state" where
  "Set_clear s = s\<lparr>heap := (heap s)(projectsWithUpdates s \<mapsto> SetObject [])\<rparr>"

definition Set_add :: "string \<Rightarrow> state \<Rightarrow> state" where
  "Set_add x s =
     s\<lparr>heap := (heap s)(projectsWithUpdates s \<mapsto>
          SetObject (if x \<in> set (Set_elems s) then Set_elems s else Set_elems s @ [x]))\<rparr>"

text \<open>
  The constructor: \<open>projectsWithUpdates = new Set()\<close> is the first object allocated, the
  status bar item is created hidden, \<open>intervalId\<close> and \<open>lastCheckTime\<close> are undefined.
\<close>

definition newAutoSyncService :: state where
  "newAutoSyncService =
     \<lparr>intervalId = None, statusBarVisible = False, statusBarText = NoText,
      lastCheckTime = None, projectsWithUpdates = 0,
      heap = Map.empty(0 \<mapsto> SetObject []), nextRef = 1,
      timers = [], nextTimerId = 0, gitLog = [], registryLog = [],
      messages = [], consoleErrors = [], cycles = [], pendingStarts = []\<rparr>"

subsection \<open>parseInt\<close>

text \<open>
  \<open>parseInt(result.trim(), 10)\<close>: white space is skipped, a sign is read, then the
  longest run of decimal digits; with no digit the result is NaN (\<open>None\<close>). Characters
  are bytes here, so the white space is the ASCII white space.
\<close>

definition isWhiteSpace :: "char \<Rightarrow> bool" where
  "isWhiteSpace c = (c \<in> set [CHR '' '', CHR 0x09, CHR 0x0A, CHR 0x0B, CHR 0x0C, CHR 0x0D])"

definition isDigit :: "char \<Rightarrow> bool" where
  "isDigit c = (c \<in> set ''0123456789'')"

definition trim :: "string \<Rightarrow> string" where
  "trim s = rev (dropWhile isWhiteSpace (rev (dropWhile isWhiteSpace s)))"

definition digitsValue :: "string \<Rightarrow> int" where
  "digitsValue ds = foldl (\<lambda>acc c. 10 * acc + (of_char c - 48)) 0 ds"

definition parseInt :: "string \<Rightarrow> int option" where
  "parseInt s =
     (let t = dropWhile isWhiteSpace s;
          negative = (case t of c # _ \<Rightarrow> c = CHR ''-'' | [] \<Rightarrow> False);
          r = (case t of c # cs \<Rightarrow> if c = CHR ''-'' \<or> c = CHR ''+'' then cs else t | [] \<Rightarrow> t);
          ds = takeWhile isDigit r
      in if ds = [] then None
         else Some (if negative then - digitsValue ds else digitsValue ds))"

subsection \<open>The methods\<close>

text \<open>
  \<open>executeGit(args, cwd)\<close> up to its \<open>await\<close>: the process is spawned. How it settles is
  read from the world when the task is resumed.
\<close>

definition executeGit :: "string list \<Rightarrow> string \<Rightarrow> state \<Rightarrow> state" where
  "executeGit args cwd s = s\<lparr>gitLog := gitLog s @ [(args, cwd)]\<rparr>"

definition updateStatusBar :: "world \<Rightarrow> state \<Rightarrow> state" where
  "updateStatusBar w s =
     (if \<not> enabled (getConfig w) then s\<lparr>statusBarVisible := False\<rparr>
      else if length (Set_elems s) > 0
        then s\<lparr>statusBarText := UpdatesText (length (Set_elems s)), statusBarVisible := True\<rparr>
        else s\<lparr>statusBarText := SyncedText, statusBarVisible := True\<rparr>)"

definition notifyUpdatesAvailable :: "nat \<Rightarrow> bool \<Rightarrow> state \<Rightarrow> state" where
  "notifyUpdatesAvailable count autoMerged s =
     s\<lparr>messages := messages s @
        [if autoMerged then AutoSyncedAggregate count (Set_elems s)
         else UpdatesAvailable count (Set_elems s)]\<rparr>"

text \<open>
  \<open>checkProjectForUpdates(projectPath)\<close>, resumed at the \<open>await\<close> it is suspended at: at
  the fetch, or else at rev-list (it has no other). Its whole body is inside \<open>try\<close>; the
  \<open>catch\<close> logs and returns false. \<open>NaN > 0\<close> is false.
\<close>

definition checkProjectForUpdates_resume ::
  "world \<Rightarrow> stage \<Rightarrow> string \<Rightarrow> state \<Rightarrow> (stage, bool) completion \<times> state" where
  "checkProjectForUpdates_resume w st projectPath s =
     (case st of
        AwaitFetch \<Rightarrow>
          (case execFileGit w [''fetch'', ''origin''] projectPath of
             Inl e \<Rightarrow>
               (Return False, s\<lparr>consoleErrors := consoleErrors s @ [ErrorCheckingForUpdates e]\<rparr>)
           | Inr _ \<Rightarrow>
               (Suspend AwaitRevList,
                executeGit [''rev-list'', ''HEAD..origin/HEAD'', ''--count''] projectPath s))
      | _ \<Rightarrow>
          (case execFileGit w [''rev-list'', ''HEAD..origin/HEAD'', ''--count''] projectPath of
             Inl e \<Rightarrow>
               (Return False, s\<lparr>consoleErrors := consoleErrors s @ [ErrorCheckingForUpdates e]\<rparr>)
           | Inr result \<Rightarrow>
               (Return (case parseInt (trim result) of
                          Some commitsBehind \<Rightarrow> commitsBehind > 0
                        | None \<Rightarrow> False), s)))"

text \<open>\<open>pullProject(projectPath, projectName)\<close> up to its first \<open>await\<close>.\<close>

definition pullProject_start ::
  "string \<Rightarrow> string \<Rightarrow> state \<Rightarrow> (stage, unit) completion \<times> state" where
  "pullProject_start projectPath projectName s =
     (Suspend AwaitPull, executeGit [''pull'', ''origin''] projectPath s)"

text \<open>
  \<open>pullProject\<close> resumed when the pull has settled. The call of
  \<open>contextManager.updateGitProject\<close> is recorded when it is made; its promise settles
  without another event in between. The \<open>catch\<close> covers the pull and the registry call.
\<close>

definition pullProject_resume ::
  "world \<Rightarrow> string \<Rightarrow> string \<Rightarrow> state \<Rightarrow> (stage, unit) completion \<times> state" where
  "pullProject_resume w projectPath projectName s =
     (case execFileGit w [''pull'', ''origin''] projectPath of
        Inl e \<Rightarrow>
          (Return (),
           s\<lparr>consoleErrors := consoleErrors s @ [FailedToPull projectName e],
             messages := messages s @ [AutoSyncFailed projectName e]\<rparr>)
      | Inr _ \<Rightarrow>
          (let s1 = s\<lparr>registryLog := registryLog s @ [projectName]\<rparr>
           in case updateGitProject w projectName of
                Inl e \<Rightarrow>
                  (Return (),
                   s1\<lparr>consoleErrors := consoleErrors s1 @ [FailedToPull projectName e],
                      messages := messages s1 @ [AutoSyncFailed projectName e]\<rparr>)
              | Inr _ \<Rightarrow>
                  (Return (), s1\<lparr>messages := messages s1 @ [AutoSynced projectName]\<rparr>)))"

text \<open>
  The arrow function of \<open>gitProjects.map\<close> after \<open>checkProjectForUpdates\<close> has returned
  \<open>hasUpdates\<close>: the body of its \<open>try\<close> from there on. The counter \<open>updatesFound\<close> of the
  enclosing call is passed through.
\<close>

definition lambda_afterCheck ::
  "auto_sync_config \<Rightarrow> project_info \<Rightarrow> bool \<Rightarrow> nat \<Rightarrow> state \<Rightarrow>
     (stage, unit) completion \<times> nat \<times> state" where
  "lambda_afterCheck cfg p hasUpdates found s =
     (if hasUpdates then
        (let s1 = Set_add (name p) s;
             found1 = found + 1
         in if autoMerge cfg
            then (case pullProject_start (folderPath p) (name p) s1 of
                    (c, s2) \<Rightarrow> (c, found1, s2))
            else (Return (), found1, s1))
      else (Return (), found, s))"

text \<open>
  The arrow function resumed at the \<open>await\<close> it is suspended at, with its \<open>try\<close>/\<open>catch\<close>:
  whatever the body throws is logged, and the promise of the arrow function is
  fulfilled either way.
\<close>

definition lambda_resume ::
  "world \<Rightarrow> auto_sync_config \<Rightarrow> task \<Rightarrow> nat \<Rightarrow> state \<Rightarrow> stage \<times> nat \<times> state" where
  "lambda_resume w cfg t found s =
     (let p = project t;
          body =
            (case stage t of
               AwaitPull \<Rightarrow>
                 (case pullProject_resume w (folderPath p) (name p) s of
                    (c, s1) \<Rightarrow> (c, found, s1))
             | st \<Rightarrow>
                 (case checkProjectForUpdates_resume w st (folderPath p) s of
                    (Suspend st', s1) \<Rightarrow> (Suspend st', found, s1)
                  | (Throw e, s1) \<Rightarrow> (Throw e, found, s1)
                  | (Return hasUpdates, s1) \<Rightarrow> lambda_afterCheck cfg p hasUpdates found s1))
      in case body of
           (Suspend st', found', s') \<Rightarrow> (st', found', s')
         | (Return _, found', s') \<Rightarrow> (Settled (Inr ()), found', s')
         | (Throw e, found', s') \<Rightarrow>
             (Settled (Inr ()), found',
              s'\<lparr>consoleErrors := consoleErrors s' @ [FailedToCheck (name p) e]\<rparr>))"

text \<open>
  The rest of \<open>start()\<close> after the optional startup check: the interval is armed and its
  handle stored in \<open>intervalId\<close>, whatever was stored there before.
\<close>

definition start_armTimer :: "world \<Rightarrow> auto_sync_config \<Rightarrow> state \<Rightarrow> state" where
  "start_armTimer w cfg s =
     (let intervalMs = intervalMinutes cfg * 60 * 1000;
          s1 = s\<lparr>timers := timers s @ [(nextTimerId s, intervalMs)],
                 nextTimerId := nextTimerId s + 1,
                 intervalId := Some (nextTimerId s)\<rparr>
      in updateStatusBar w s1)"

text \<open>
  The promise of a \<open>checkForUpdates()\<close> call has settled: whoever awaits it goes on.
  \<open>start()\<close> goes on to arm the timer when the promise is fulfilled, and rejects
  otherwise.
\<close>

definition resumeAwaiter :: "world \<Rightarrow> awaiter \<Rightarrow> unit js_result \<Rightarrow> state \<Rightarrow> state" where
  "resumeAwaiter w a r s =
     (case a of
        Detached \<Rightarrow> s
      | FromStart cfg \<Rightarrow> (case r of Inl e \<Rightarrow> s | Inr _ \<Rightarrow> start_armTimer w cfg s))"

definition gitProjectsOf :: "world \<Rightarrow> project_info list" where
  "gitProjectsOf w =
     filter (\<lambda>p. projectEnabled p \<and> existsGit w (folderPath p)) (getProjects w)"

text \<open>
  \<open>checkForUpdates()\<close> up to \<open>await Promise.all(updatePromises)\<close>. Mapping the arrow
  function over \<open>gitProjects\<close> runs each one up to its first \<open>await\<close>, the fetch that
  \<open>checkProjectForUpdates\<close> spawns. With no git project the call returns at once;
  otherwise it is suspended, and the invocation is added to \<open>cycles\<close> with whoever
  awaits it.
\<close>

definition checkForUpdates ::
  "world \<Rightarrow> awaiter \<Rightarrow> state \<Rightarrow> (unit, unit) completion \<times> state" where
  "checkForUpdates w a s =
     (let cfg = getConfig w;
          s1 = s\<lparr>lastCheckTime := Some (now w)\<rparr>;
          s2 = Set_clear s1;
          gitProjects = gitProjectsOf w
      in if length gitProjects = 0
         then (Return (), updateStatusBar w s2)
         else
           (let s3 = fold (\<lambda>p. executeGit [''fetch'', ''origin''] (folderPath p)) gitProjects s2
            in (Suspend (),
                s3\<lparr>cycles := cycles s3 @
                   [\<lparr>config = cfg, updatesFound = 0,
                     tasks = map (\<lambda>p. \<lparr>project = p, stage = AwaitFetch\<rparr>) gitProjects,
                     awaitedBy = a, outcome = None\<rparr>]\<rparr>)))"

fun isSettled :: "stage \<Rightarrow> bool" where
  "isSettled (Settled _) = True"
| "isSettled _ = False"

fun rejection :: "stage \<Rightarrow> string option" where
  "rejection (Settled (Inl e)) = Some e"
| "rejection _ = None"

text \<open>
  The rest of \<open>checkForUpdates()\<close> once \<open>Promise.all\<close> is fulfilled, for cycle \<open>c\<close>: the
  aggregate notification, the status bar, and the call is fulfilled.
\<close>

definition checkForUpdates_afterAll :: "world \<Rightarrow> nat \<Rightarrow> state \<Rightarrow> state" where
  "checkForUpdates_afterAll w c s =
     (let cyc = cycles s ! c;
          s1 = (if updatesFound cyc > 0 \<and> notifyOnUpdates (config cyc)
                then notifyUpdatesAvailable (updatesFound cyc) (autoMerge (config cyc)) s
                else s);
          s2 = updateStatusBar w s1
      in resumeAwaiter w (awaitedBy cyc) (Inr ())
           (s2\<lparr>cycles := (cycles s2)[c := cyc\<lparr>outcome := Some (Inr ())\<rparr>]\<rparr>))"

text \<open>
  \<open>await Promise.all(updatePromises)\<close>, looked at after a task of cycle \<open>c\<close> has moved.
  While the call is pending: a rejected element rejects the call, and when every
  element is fulfilled the call goes on.
\<close>

definition awaitPromiseAll :: "world \<Rightarrow> nat \<Rightarrow> state \<Rightarrow> state" where
  "awaitPromiseAll w c s =
     (let cyc = cycles s ! c
      in if outcome cyc \<noteq> None then s
         else
           (case List.map_filter (\<lambda>t. rejection (stage t)) (tasks cyc) of
              e # _ \<Rightarrow>
                resumeAwaiter w (awaitedBy cyc) (Inl e)
                  (s\<lparr>cycles := (cycles s)[c := cyc\<lparr>outcome := Some (Inl e)\<rparr>]\<rparr>)
            | [] \<Rightarrow>
                if list_all (\<lambda>t. isSettled (stage t)) (tasks cyc)
                then checkForUpdates_afterAll w c s
                else s))"

text \<open>
  The arrow function of task \<open>i\<close> of cycle \<open>c\<close> is resumed and runs up to its next
  suspension (or to its end): where it stands now and the counter \<open>updatesFound\<close> of its
  cycle are stored.
\<close>

definition resumeTask :: "world \<Rightarrow> nat \<Rightarrow> nat \<Rightarrow> state \<Rightarrow> state" where
  "resumeTask w c i s =
     (let cyc = cycles s ! c;
          t = tasks cyc ! i
      in case lambda_resume w (config cyc) t (updatesFound cyc) s of
           (st', found', s1) \<Rightarrow>
             s1\<lparr>cycles := (cycles s1)
                  [c := cyc\<lparr>updatesFound := found',
                            tasks := (tasks cyc)[i := t\<lparr>stage := st'\<rparr>]\<rparr>]\<rparr>)"

text \<open>
  The git process that task \<open>i\<close> of cycle \<open>c\<close> waits for settles: the arrow function is
  resumed, and \<open>Promise.all\<close> looks at the result. An event for a task that does not
  exist or has settled changes nothing.
\<close>

definition settle :: "world \<Rightarrow> nat \<Rightarrow> nat \<Rightarrow> state \<Rightarrow> state" where
  "settle w c i s =
     (if c < length (cycles s) \<and> i < length (tasks (cycles s ! c)) \<and>
         \<not> isSettled (stage (tasks (cycles s ! c) ! i))
      then awaitPromiseAll w c (resumeTask w c i s)
      else s)"

text \<open>
  \<open>start()\<close> up to its first suspension. With \<open>runOnStartup\<close> it awaits the check, and
  an \<open>await\<close> always suspends: when the check is itself suspended, \<open>start()\<close> waits
  for its cycle, until \<open>resumeAwaiter\<close> takes it up; when the check returned at once,
  \<open>start()\<close> is queued in \<open>pendingStarts\<close> with the configuration it read, and goes on
  only after its caller has run to its end.
\<close>

definition start :: "world \<Rightarrow> state \<Rightarrow> (unit, unit) completion \<times> state" where
  "start w s =
     (let cfg = getConfig w
      in if \<not> enabled cfg then (Return (), s\<lparr>statusBarVisible := False\<rparr>)
         else if runOnStartup cfg then
           (case checkForUpdates w (FromStart cfg) s of
              (Return _, s1) \<Rightarrow> (Suspend (), s1\<lparr>pendingStarts := pendingStarts s1 @ [cfg]\<rparr>)
            | (Throw e, s1) \<Rightarrow> (Throw e, s1)
            | (Suspend _, s1) \<Rightarrow> (Suspend (), s1))
         else (Return (), start_armTimer w cfg s))"

text \<open>
  The oldest \<open>start()\<close> that is queued after a check that returned at once goes on: it
  arms the timer.
\<close>

definition resumeStart :: "world \<Rightarrow> state \<Rightarrow> state" where
  "resumeStart w s =
     (case pendingStarts s of
        [] \<Rightarrow> s
      | cfg # rest \<Rightarrow> start_armTimer w cfg (s\<lparr>pendingStarts := rest\<rparr>))"

text \<open>\<open>stop()\<close>.\<close>

definition stop :: "state \<Rightarrow> state" where
  "stop s =
     (let s1 = (case intervalId s of
                  Some h \<Rightarrow> s\<lparr>timers := filter (\<lambda>(i, ms). i \<noteq> h) (timers s), intervalId := None\<rparr>
                | None \<Rightarrow> s)
      in s1\<lparr>statusBarVisible := False\<rparr>)"

text \<open>
  \<open>getProjectsWithUpdates()\<close>: \<open>Array.from\<close> allocates a new array holding the elements of
  the Set and returns its reference.
\<close>

definition getProjectsWithUpdates :: "state \<Rightarrow> nat \<times> state" where
  "getProjectsWithUpdates s =
     (nextRef s,
      s\<lparr>heap := (heap s)(nextRef s \<mapsto> ArrayObject (Set_elems s)), nextRef := nextRef s + 1\<rparr>)"

subsection \<open>The event loop\<close>

text \<open>
  One event. A caller from outside drops the promise of \<open>start()\<close> or
  \<open>checkForUpdates()\<close>, and so does the callback of \<open>setInterval\<close>; a timer that was
  cleared does not tick. Several calls in a row are one turn of a caller: a queued
  \<open>start()\<close> is resumed (\<open>Resume_start\<close>) after them. In the code it is resumed before
  the next timer tick and before the next git process settles; the model leaves the
  order to the schedule, so every order of the code is an order of the model.
\<close>

fun step :: "world \<Rightarrow> event \<Rightarrow> state \<Rightarrow> state" where
  "step w Call_start s = snd (start w s)"
| "step w Call_stop s = stop s"
| "step w Call_checkForUpdates s = snd (checkForUpdates w Detached s)"
| "step w (TimerTick h) s =
     (if h \<in> fst ` set (timers s) then snd (checkForUpdates w Detached s) else s)"
| "step w (Settle c i) s = settle w c i s"
| "step w Resume_start s = resumeStart w s"

fun run :: "world \<Rightarrow> event list \<Rightarrow> state \<Rightarrow> state" where
  "run w [] s = s"
| "run w (e # es) s = run w es (step w e s)"

subsection \<open>Concrete surroundings for the examples\<close>

text \<open>
  Three projects: A and B are enabled and git-backed, C has no \<open>.git\<close> folder. Every
  fetch succeeds; rev-list prints 2 for A and \<open>behindB\<close> for B; every pull settles as
  \<open>pullOutcome\<close>. Notifications are on, the startup check is off.
\<close>

definition projectA :: project_info where
  "projectA = \<lparr>name = ''A'', folderPath = ''/ws/.contexts/A'', projectEnabled = True\<rparr>"

definition projectB :: project_info where
  "projectB = \<lparr>name = ''B'', folderPath = ''/ws/.contexts/B'', projectEnabled = True\<rparr>"

definition projectC :: project_info where
  "projectC = \<lparr>name = ''C'', folderPath = ''/ws/.contexts/C'', projectEnabled = True\<rparr>"

definition exampleWorld :: "bool \<Rightarrow> string \<Rightarrow> string js_result \<Rightarrow> world" where
  "exampleWorld merge behindB pullOutcome =
     \<lparr>getConfig = \<lparr>enabled = True, intervalMinutes = 30, autoMerge = merge,
                    notifyOnUpdates = True, runOnStartup = False\<rparr>,
      getProjects = [projectA, projectB, projectC],
      existsGit = (\<lambda>p. p \<noteq> ''/ws/.contexts/C''),
      execFileGit = (\<lambda>args cwd.
         if args = [''rev-list'', ''HEAD..origin/HEAD'', ''--count'']
         then (if cwd = ''/ws/.contexts/A'' then Inr (''2'' @ [CHR 0x0A])
               else Inr (behindB @ [CHR 0x0A]))
         else if args = [''pull'', ''origin''] then pullOutcome
         else Inr []),
      updateGitProject = (\<lambda>n. Inr ()),
      now = 1700000000\<rparr>"

text \<open>
  The service after \<open>start()\<close> and one complete cycle in notify-only mode, with B up to
  date: the timer is armed, A is pending.
\<close>

definition stateAfterCycle :: state where
  "stateAfterCycle =
     run (exampleWorld False ''0'' (Inr []))
       [Call_start, Call_checkForUpdates, Settle 0 0, Settle 0 1, Settle 0 0, Settle 0 1]
       newAutoSyncService"

text \<open>
  A schedule that lets the two tasks of a cycle in notify-only mode run to their end: the
  fetches of A and B settle, then the rev-lists.
\<close>

definition exampleSchedule :: "event list" where
  "exampleSchedule = [Settle 0 0, Settle 0 1, Settle 0 0, Settle 0 1]"

text \<open>
  A service with the startup check on and A as its only project. \<open>start()\<close> runs its
  check (cycle 0) and arms the timer when the check has ended; the timer ticks and starts
  cycle 1, which is in flight in \<open>stateStarted\<close>. The schedule that follows lets the task
  of cycle 1 run to its end: the fetch of A settles, then its rev-list.
\<close>

definition startupWorld :: world where
  "startupWorld =
     (exampleWorld False ''0'' (Inr []))
       \<lparr>getConfig := (getConfig (exampleWorld False ''0'' (Inr [])))\<lparr>runOnStartup := True\<rparr>,
        getProjects := [projectA]\<rparr>"

definition stateStarted :: state where
  "stateStarted =
     run startupWorld [Call_start, Settle 0 0, Settle 0 0, TimerTick 0] newAutoSyncService"

definition lateSchedule :: "event list" where
  "lateSchedule = [Settle 1 0, Resume_start, Settle 1 0]"

text \<open>
  A schedule for auto-merge mode with B up to date: the fetch, the rev-list and the pull
  of A settle, then the fetch and the rev-list of B.
\<close>

definition mergeSchedule :: "event list" where
  "mergeSchedule = [Settle 0 0, Settle 0 0, Settle 0 0, Settle 0 1, Settle 0 1]"

definition stateAfterMerge :: state where
  "stateAfterMerge =
     run (exampleWorld True ''0'' (Inr [])) (Call_checkForUpdates # mergeSchedule)
       newAutoSyncService"

text \<open>
  Auto-merge mode with A and B both behind: a schedule that lets both tasks run to their
  end, and the state after it.
\<close>

definition mergeBothSchedule :: "event list" where
  "mergeBothSchedule = [Settle 0 0, Settle 0 1, Settle 0 0, Settle 0 1, Settle 0 0, Settle 0 1]"

definition stateAfterMergeBoth :: state where
  "stateAfterMergeBoth =
     run (exampleWorld True ''5'' (Inr [])) (Call_checkForUpdates # mergeBothSchedule)
       newAutoSyncService"


text \<open>
  The example world with B disabled while its remote is five commits ahead.
\<close>

definition disabledWorld :: world where
  "disabledWorld =
     (exampleWorld False ''5'' (Inr []))
       \<lparr>getProjects := [projectA, projectB\<lparr>projectEnabled := False\<rparr>, projectC]\<rparr>"

text \<open>
  B is disabled while a cycle that checks it is in flight: the cycle was started when B
  was still enabled (the example world with B five commits behind), the next one is
  started after B has been disabled. The rev-list of B settles in the older cycle, then
  the newer cycle runs to its end.
\<close>

definition stateOverlap :: state where
  "stateOverlap =
     run disabledWorld [Call_checkForUpdates, Settle 0 1, Settle 0 1, Settle 1 0, Settle 1 0]
       (snd (checkForUpdates (exampleWorld False ''5'' (Inr [])) Detached newAutoSyncService))"

text \<open>
  Auto-merge mode where things go wrong: the pull of A ends in a merge conflict, and the
  remote of B cannot be reached by the fetch. The state after one cycle.
\<close>

definition failingWorld :: world where
  "failingWorld =
     (exampleWorld True ''0'' (Inl ''CONFLICT''))
       \<lparr>execFileGit := (\<lambda>args cwd.
          if args = [''fetch'', ''origin''] \<and> cwd = ''/ws/.contexts/B''
          then Inl ''unreachable''
          else execFileGit (exampleWorld True ''0'' (Inl ''CONFLICT'')) args cwd)\<rparr>"

definition stateAfterFailures :: state where
  "stateAfterFailures =
     run failingWorld (Call_checkForUpdates # mergeSchedule) newAutoSyncService"

subsection \<open>Notions used in the properties\<close>

text \<open>
  The state with the timer fields and the status bar blanked out: what is left is the
  pending-updates set, \<open>lastCheckTime\<close>, the heap, the cycles and everything the service
  did to its surroundings.
\<close>

definition withoutTimerAndStatusBar :: "state \<Rightarrow> state" where
  "withoutTimerAndStatusBar s =
     s\<lparr>intervalId := None, timers := [], nextTimerId := 0,
       statusBarVisible := False, statusBarText := NoText\<rparr>"

text \<open>The events that resume a task, as opposed to calls from outside and timer ticks.\<close>

fun isSettle :: "event \<Rightarrow> bool" where
  "isSettle (Settle c i) = True"
| "isSettle _ = False"

text \<open>
  The events that resume something suspended: a task, or a \<open>start()\<close> that is queued
  after a check that returned at once.
\<close>

fun isResumption :: "event \<Rightarrow> bool" where
  "isResumption (Settle c i) = True"
| "isResumption Resume_start = True"
| "isResumption _ = False"

text \<open>\<open>start()\<close> is waiting for a cycle: the cycle is in flight, and \<open>start()\<close> awaits it.\<close>

definition startWaiting :: "cycle \<Rightarrow> bool" where
  "startWaiting cyc = (outcome cyc = None \<and> awaitedBy cyc \<noteq> Detached)"

text \<open>
  What the world answers for one project: the fetch succeeds; rev-list succeeds and
  prints a count above zero; both (\<open>checkProjectForUpdates\<close> then returns true); the pull
  succeeds.
\<close>

definition fetchOk :: "world \<Rightarrow> project_info \<Rightarrow> bool" where
  "fetchOk w p = (case execFileGit w [''fetch'', ''origin''] (folderPath p) of Inr _ \<Rightarrow> True | Inl _ \<Rightarrow> False)"

definition revListBehind :: "world \<Rightarrow> project_info \<Rightarrow> bool" where
  "revListBehind w p =
     (case execFileGit w [''rev-list'', ''HEAD..origin/HEAD'', ''--count''] (folderPath p) of
        Inr result \<Rightarrow> (case parseInt (trim result) of Some commitsBehind \<Rightarrow> commitsBehind > 0 | None \<Rightarrow> False)
      | Inl _ \<Rightarrow> False)"

definition hasUpdate :: "world \<Rightarrow> project_info \<Rightarrow> bool" where
  "hasUpdate w p = (fetchOk w p \<and> revListBehind w p)"

definition pullOk :: "world \<Rightarrow> project_info \<Rightarrow> bool" where
  "pullOk w p = (case execFileGit w [''pull'', ''origin''] (folderPath p) of Inr _ \<Rightarrow> True | Inl _ \<Rightarrow> False)"

text \<open>The message \<open>pullProject\<close> shows for a project once its pull has settled.\<close>

definition pullMessage :: "world \<Rightarrow> project_info \<Rightarrow> message" where
  "pullMessage w p =
     (case execFileGit w [''pull'', ''origin''] (folderPath p) of
        Inl e \<Rightarrow> AutoSyncFailed (name p) e
      | Inr _ \<Rightarrow> (case updateGitProject w (name p) of
                   Inl e \<Rightarrow> AutoSyncFailed (name p) e
                 | Inr _ \<Rightarrow> AutoSynced (name p)))"

text \<open>
  Where a task stands after its next resumption, and what the resumption logs with
  \<open>console.error\<close>, read off the world.
\<close>

definition nextStage :: "world \<Rightarrow> auto_sync_config \<Rightarrow> task \<Rightarrow> stage" where
  "nextStage w cfg t =
     (case stage t of
        AwaitFetch \<Rightarrow> if fetchOk w (project t) then AwaitRevList else Settled (Inr ())
      | AwaitRevList \<Rightarrow>
          if revListBehind w (project t) \<and> autoMerge cfg then AwaitPull else Settled (Inr ())
      | _ \<Rightarrow> Settled (Inr ()))"

definition stepErrors :: "world \<Rightarrow> task \<Rightarrow> console_entry list" where
  "stepErrors w t =
     (case stage t of
        AwaitFetch \<Rightarrow>
          (case execFileGit w [''fetch'', ''origin''] (folderPath (project t)) of
             Inl e \<Rightarrow> [ErrorCheckingForUpdates e] | Inr _ \<Rightarrow> [])
      | AwaitRevList \<Rightarrow>
          (case execFileGit w [''rev-list'', ''HEAD..origin/HEAD'', ''--count''] (folderPath (project t)) of
             Inl e \<Rightarrow> [ErrorCheckingForUpdates e] | Inr _ \<Rightarrow> [])
      | AwaitPull \<Rightarrow>
          (case execFileGit w [''pull'', ''origin''] (folderPath (project t)) of
             Inl e \<Rightarrow> [FailedToPull (name (project t)) e]
           | Inr _ \<Rightarrow> (case updateGitProject w (name (project t)) of
                        Inl e \<Rightarrow> [FailedToPull (name (project t)) e] | Inr _ \<Rightarrow> []))
      | Settled _ \<Rightarrow> [])"

text \<open>Every task of a list has settled: \<open>Promise.all\<close> has nothing left to wait for.\<close>

definition settledAll :: "task list \<Rightarrow> bool" where
  "settledAll ts = list_all (\<lambda>t. isSettled (stage t)) ts"

text \<open>
  Where a task stands agrees with what the world answered so far: it waits for rev-list
  only after a fetch that succeeded, for the pull only when its project was found behind
  in auto-merge mode, and it never settles rejected.
\<close>

definition stageOK :: "world \<Rightarrow> auto_sync_config \<Rightarrow> task \<Rightarrow> bool" where
  "stageOK w cfg t =
     (case stage t of
        AwaitFetch \<Rightarrow> True
      | AwaitRevList \<Rightarrow> fetchOk w (project t)
      | AwaitPull \<Rightarrow> hasUpdate w (project t) \<and> autoMerge cfg
      | Settled r \<Rightarrow> r = Inr ())"

text \<open>
  A task has added the name of its project to the pending-updates set: it is waiting for
  the pull, or it has settled and its project was found behind.
\<close>

definition added :: "world \<Rightarrow> task \<Rightarrow> bool" where
  "added w t =
     (case stage t of
        AwaitPull \<Rightarrow> True
      | Settled _ \<Rightarrow> hasUpdate w (project t)
      | _ \<Rightarrow> False)"

text \<open>
  Cycle \<open>c\<close> is the only one that may be in flight: its tasks stand where the world's
  answers put them, the tasks of every other cycle have settled, and the promise of the
  call is pending exactly as long as one of its tasks is.
\<close>

definition cycleCore :: "world \<Rightarrow> nat \<Rightarrow> state \<Rightarrow> bool" where
  "cycleCore w c s =
     (c < length (cycles s) \<and>
      list_all (stageOK w (config (cycles s ! c))) (tasks (cycles s ! c)) \<and>
      (\<forall>k<length (cycles s). k \<noteq> c \<longrightarrow> settledAll (tasks (cycles s ! k))) \<and>
      outcome (cycles s ! c) =
        (if settledAll (tasks (cycles s ! c)) then Some (Inr ()) else None))"

text \<open>
  What holds of the pending-updates set and the counter while a cycle is in flight on
  its own: the set holds the names of the tasks that have added theirs, once each, and
  \<open>updatesFound\<close> counts those tasks.
\<close>

definition pendingInv :: "world \<Rightarrow> nat \<Rightarrow> state \<Rightarrow> bool" where
  "pendingInv w c s =
     (distinct (Set_elems s) \<and>
      set (Set_elems s) =
        set (map (\<lambda>t. name (project t)) (filter (added w) (tasks (cycles s ! c)))) \<and>
      updatesFound (cycles s ! c) = length (filter (added w) (tasks (cycles s ! c))))"

text \<open>A task has called the registry: it is settled after a pull that succeeded.\<close>

definition merged :: "world \<Rightarrow> auto_sync_config \<Rightarrow> task \<Rightarrow> bool" where
  "merged w cfg t =
     (isSettled (stage t) \<and> hasUpdate w (project t) \<and> autoMerge cfg \<and> pullOk w (project t))"

definition registryInv :: "world \<Rightarrow> nat \<Rightarrow> state \<Rightarrow> state \<Rightarrow> bool" where
  "registryInv w c b s =
     (\<forall>n. count_list (registryLog s) n =
            count_list (registryLog b) n +
            length (filter (\<lambda>t. name (project t) = n \<and> merged w (config (cycles s ! c)) t)
                      (tasks (cycles s ! c))))"

text \<open>
  The pull of a task has settled: \<open>pullProject\<close> has shown its message for the project.
\<close>

definition pulled :: "world \<Rightarrow> auto_sync_config \<Rightarrow> task \<Rightarrow> bool" where
  "pulled w cfg t = (isSettled (stage t) \<and> hasUpdate w (project t) \<and> autoMerge cfg)"

text \<open>
  The messages of a cycle in flight on its own, from the state \<open>b\<close> it started in: the
  messages of \<open>pullProject\<close>, one for each task whose pull has settled and none outside
  auto-merge mode, and after them the aggregate notification once the cycle has settled.
\<close>

fun isIndividual :: "message \<Rightarrow> bool" where
  "isIndividual (AutoSynced n) = True"
| "isIndividual (AutoSyncFailed n e) = True"
| "isIndividual _ = False"

definition aggregatePart :: "nat \<Rightarrow> state \<Rightarrow> message list" where
  "aggregatePart c s =
     (if outcome (cycles s ! c) \<noteq> None \<and> updatesFound (cycles s ! c) > 0 \<and>
         notifyOnUpdates (config (cycles s ! c))
      then [if autoMerge (config (cycles s ! c))
            then AutoSyncedAggregate (updatesFound (cycles s ! c)) (Set_elems s)
            else UpdatesAvailable (updatesFound (cycles s ! c)) (Set_elems s)]
      else [])"

definition messagesInv :: "world \<Rightarrow> nat \<Rightarrow> state \<Rightarrow> state \<Rightarrow> bool" where
  "messagesInv w c b s =
     (\<exists>ind. list_all isIndividual ind \<and>
            (\<not> autoMerge (config (cycles s ! c)) \<longrightarrow> ind = []) \<and>
            (\<forall>m. count_list ind m =
                   length (filter (\<lambda>t. pullMessage w (project t) = m \<and>
                                        pulled w (config (cycles s ! c)) t)
                             (tasks (cycles s ! c)))) \<and>
            messages s = messages b @ ind @ aggregatePart c s)"

text \<open>
  The git processes of a cycle in flight on its own: beyond those of the state \<open>b\<close> it
  started in, each runs in the folder of one of its projects, and a pull only in
  auto-merge mode.
\<close>

definition gitInv :: "nat \<Rightarrow> state \<Rightarrow> state \<Rightarrow> bool" where
  "gitInv c b s =
     (\<forall>g\<in>set (gitLog s).
        g \<in> set (gitLog b) \<or>
        snd g \<in> set (map (\<lambda>t. folderPath (project t)) (tasks (cycles s ! c))) \<and>
        (fst g = [''pull'', ''origin''] \<longrightarrow> autoMerge (config (cycles s ! c))))"

text \<open>No cycle is in flight: every task of every cycle has settled.\<close>

definition idle :: "state \<Rightarrow> bool" where
  "idle s = list_all (\<lambda>cyc. settledAll (tasks cyc)) (cycles s)"

text \<open>
  Everything above together, for cycle \<open>c\<close> in flight on its own since the state \<open>b\<close>;
  its configuration and its projects are those it started with.
\<close>

definition cycleInv :: "world \<Rightarrow> nat \<Rightarrow> state \<Rightarrow> state \<Rightarrow> bool" where
  "cycleInv w c b s =
     (cycleCore w c s \<and> pendingInv w c s \<and> registryInv w c b s \<and>
      messagesInv w c b s \<and> gitInv c b s \<and>
      config (cycles s ! c) = config (cycles b ! c) \<and>
      map project (tasks (cycles s ! c)) = map project (tasks (cycles b ! c)))"

text \<open>
  The error that makes \<open>checkProjectForUpdates\<close> return false for a project, if there is
  one: the rejection of the fetch, or else of rev-list.
\<close>

definition checkFailure :: "world \<Rightarrow> project_info \<Rightarrow> string option" where
  "checkFailure w p =
     (case execFileGit w [''fetch'', ''origin''] (folderPath p) of
        Inl e \<Rightarrow> Some e
      | Inr _ \<Rightarrow>
          (case execFileGit w [''rev-list'', ''HEAD..origin/HEAD'', ''--count''] (folderPath p) of
             Inl e \<Rightarrow> Some e
           | Inr _ \<Rightarrow> None))"

text \<open>
  What a settled task has left behind for its project: a failed check is logged, and a
  failed pull is logged and shown.
\<close>

definition settledFacts :: "world \<Rightarrow> auto_sync_config \<Rightarrow> state \<Rightarrow> project_info \<Rightarrow> bool" where
  "settledFacts w cfg s p =
     ((\<forall>e. checkFailure w p = Some e \<longrightarrow>
           ErrorCheckingForUpdates e \<in> set (consoleErrors s)) \<and>
      (\<forall>e. hasUpdate w p \<and> autoMerge cfg \<and>
           execFileGit w [''pull'', ''origin''] (folderPath p) = Inl e \<longrightarrow>
           AutoSyncFailed (name p) e \<in> set (messages s) \<and>
           FailedToPull (name p) e \<in> set (consoleErrors s)))"

definition errorsInv :: "world \<Rightarrow> nat \<Rightarrow> state \<Rightarrow> bool" where
  "errorsInv w c s =
     (\<forall>t\<in>set (tasks (cycles s ! c)).
        isSettled (stage t) \<longrightarrow> settledFacts w (config (cycles s ! c)) s (project t))"

text \<open>
  How far a task has come, and the schedule that resumes every task of cycle \<open>c\<close> with
  \<open>n\<close> tasks three times in turn: a task has at most three git processes to wait for.
\<close>

fun rank :: "stage \<Rightarrow> nat" where
  "rank AwaitFetch = 0"
| "rank AwaitRevList = 1"
| "rank AwaitPull = 2"
| "rank (Settled r) = 3"

definition roundRobin :: "nat \<Rightarrow> nat \<Rightarrow> event list" where
  "roundRobin c n = concat (replicate 3 (map (Settle c) [0..<n]))"

text \<open>
  During a pass over the tasks of cycle \<open>c\<close>: the first \<open>m\<close> tasks have been resumed and
  have rank \<open>k + 1\<close> at least (or have settled), the others have rank \<open>k\<close> at least.
\<close>

definition passInv :: "world \<Rightarrow> nat \<Rightarrow> nat \<Rightarrow> nat \<Rightarrow> nat \<Rightarrow> state \<Rightarrow> bool" where
  "passInv w c n k m s =
     (cycleCore w c s \<and> length (tasks (cycles s ! c)) = n \<and>
      (\<forall>j<n. (if j < m then min 3 (k + 1) else k) \<le> rank (stage (tasks (cycles s ! c) ! j))))"

section \<open>Properties\<close>

subsection \<open>Evaluation of the model\<close>

lemmas example_defs =
  exampleWorld_def projectA_def projectB_def projectC_def newAutoSyncService_def

lemmas model_defs =
  checkForUpdates_def gitProjectsOf_def Set_clear_def Set_elems_def Set_add_def executeGit_def
  updateStatusBar_def start_def start_armTimer_def resumeStart_def stop_def settle_def
  resumeTask_def
  lambda_resume_def
  lambda_afterCheck_def pullProject_start_def pullProject_resume_def
  checkProjectForUpdates_resume_def awaitPromiseAll_def checkForUpdates_afterAll_def
  resumeAwaiter_def
  notifyUpdatesAvailable_def parseInt_def trim_def isWhiteSpace_def isDigit_def
  digitsValue_def List.map_filter_def getProjectsWithUpdates_def

lemma fold_executeGit:
  "fold (\<lambda>p. executeGit a (f p)) ps s = s\<lparr>gitLog := gitLog s @ map (\<lambda>p. (a, f p)) ps\<rparr>"
  by (induction ps arbitrary: s) (simp_all add: executeGit_def)

lemma stateAfterCycle_fields:
  "Set_elems stateAfterCycle = [''A'']"
  "lastCheckTime stateAfterCycle = Some 1700000000"
  "intervalId stateAfterCycle = Some 0"
  "timers stateAfterCycle = [(0, 1800000)]"
  "projectsWithUpdates stateAfterCycle < nextRef stateAfterCycle"
  "fst (getProjectsWithUpdates stateAfterCycle) = 1"
  by (simp_all add: stateAfterCycle_def example_defs model_defs)

lemma stateStarted_fields:
  "pendingStarts stateStarted = []"
  "intervalId stateStarted = Some 0"
  "timers stateStarted = [(0, 1800000)]"
  "map awaitedBy (cycles stateStarted) = [FromStart (getConfig startupWorld), Detached]"
  "map outcome (cycles stateStarted) = [Some (Inr ()), None]"
  "messages stateStarted = [UpdatesAvailable 1 [''A'']]"
  by (simp_all add: stateStarted_def startupWorld_def example_defs model_defs Let_def)

lemma stateStarted_late:
  "Set_elems (run startupWorld lateSchedule stateStarted) = [''A'']"
  "messages (run startupWorld lateSchedule stateStarted) =
     [UpdatesAvailable 1 [''A''], UpdatesAvailable 1 [''A'']]"
  "intervalId (run startupWorld lateSchedule stateStarted) = Some 0"
  by (simp_all add: stateStarted_def lateSchedule_def startupWorld_def example_defs model_defs Let_def)

lemma start_then_stop_in_one_turn:
  "fst (start (startupWorld\<lparr>getProjects := []\<rparr>) newAutoSyncService) = Suspend ()"
  "intervalId (run (startupWorld\<lparr>getProjects := []\<rparr>) [Call_start, Call_stop]
                 newAutoSyncService) = None"
  "intervalId (run (startupWorld\<lparr>getProjects := []\<rparr>) [Call_start, Call_stop, Resume_start]
                 newAutoSyncService) = Some 0"
  by (simp_all add: startupWorld_def example_defs model_defs Let_def)

lemma stateOverlap_fields:
  "map (\<lambda>cyc. map project (tasks cyc)) (cycles stateOverlap) = [[projectA, projectB], [projectA]]"
  "map outcome (cycles stateOverlap) = [None, Some (Inr ())]"
  "Set_elems stateOverlap = [''B'', ''A'']"
  "messages stateOverlap = [UpdatesAvailable 1 [''B'', ''A'']]"
  by (simp_all add: stateOverlap_def disabledWorld_def example_defs model_defs Let_def)

subsection \<open>The Set, the frame of each method, and one resumption of a task\<close>

lemma lambda_resume_AwaitFetch:
  "stage t = AwaitFetch \<Longrightarrow>
   lambda_resume w cfg t f s =
     (case execFileGit w [''fetch'', ''origin''] (folderPath (project t)) of
        Inl e \<Rightarrow> (Settled (Inr ()), f, s\<lparr>consoleErrors := consoleErrors s @ [ErrorCheckingForUpdates e]\<rparr>)
      | Inr _ \<Rightarrow> (AwaitRevList, f,
                  executeGit [''rev-list'', ''HEAD..origin/HEAD'', ''--count''] (folderPath (project t)) s))"
  by (simp add: lambda_resume_def checkProjectForUpdates_resume_def lambda_afterCheck_def Let_def
      split: sum.splits)

lemma lambda_resume_AwaitRevList:
  "stage t = AwaitRevList \<Longrightarrow>
   lambda_resume w cfg t f s =
     (case execFileGit w [''rev-list'', ''HEAD..origin/HEAD'', ''--count''] (folderPath (project t)) of
        Inl e \<Rightarrow> (Settled (Inr ()), f, s\<lparr>consoleErrors := consoleErrors s @ [ErrorCheckingForUpdates e]\<rparr>)
      | Inr _ \<Rightarrow>
          if revListBehind w (project t) then
            (if autoMerge cfg
             then (AwaitPull, f + 1,
                   executeGit [''pull'', ''origin''] (folderPath (project t)) (Set_add (name (project t)) s))
             else (Settled (Inr ()), f + 1, Set_add (name (project t)) s))
          else (Settled (Inr ()), f, s))"
  by (simp add: lambda_resume_def checkProjectForUpdates_resume_def lambda_afterCheck_def Let_def
      revListBehind_def pullProject_start_def
      split: sum.splits)

lemma lambda_resume_AwaitPull:
  "stage t = AwaitPull \<Longrightarrow>
   lambda_resume w cfg t f s =
     (Settled (Inr ()), f,
      (case execFileGit w [''pull'', ''origin''] (folderPath (project t)) of
         Inl e \<Rightarrow>
           s\<lparr>consoleErrors := consoleErrors s @ [FailedToPull (name (project t)) e],
             messages := messages s @ [AutoSyncFailed (name (project t)) e]\<rparr>
       | Inr _ \<Rightarrow>
           (case updateGitProject w (name (project t)) of
              Inl e \<Rightarrow>
                s\<lparr>registryLog := registryLog s @ [name (project t)],
                  consoleErrors := consoleErrors s @ [FailedToPull (name (project t)) e],
                  messages := messages s @ [AutoSyncFailed (name (project t)) e]\<rparr>
            | Inr _ \<Rightarrow>
                s\<lparr>registryLog := registryLog s @ [name (project t)],
                  messages := messages s @ [AutoSynced (name (project t))]\<rparr>)))"
  by (simp add: lambda_resume_def pullProject_resume_def Let_def
      split: sum.splits)

lemma Set_elems_frame [simp]:
  "Set_elems (s\<lparr>intervalId := a1\<rparr>) = Set_elems s"
  "Set_elems (s\<lparr>statusBarVisible := a2\<rparr>) = Set_elems s"
  "Set_elems (s\<lparr>statusBarText := a3\<rparr>) = Set_elems s"
  "Set_elems (s\<lparr>lastCheckTime := a4\<rparr>) = Set_elems s"
  "Set_elems (s\<lparr>timers := a5\<rparr>) = Set_elems s"
  "Set_elems (s\<lparr>nextTimerId := a6\<rparr>) = Set_elems s"
  "Set_elems (s\<lparr>gitLog := a7\<rparr>) = Set_elems s"
  "Set_elems (s\<lparr>registryLog := a8\<rparr>) = Set_elems s"
  "Set_elems (s\<lparr>messages := a9\<rparr>) = Set_elems s"
  "Set_elems (s\<lparr>consoleErrors := a10\<rparr>) = Set_elems s"
  "Set_elems (s\<lparr>cycles := a11\<rparr>) = Set_elems s"
  by (simp_all add: Set_elems_def)

lemma Set_elems_Set_add [simp]:
  "Set_elems (Set_add x s) = (if x \<in> set (Set_elems s) then Set_elems s else Set_elems s @ [x])"
  by (simp add: Set_add_def Set_elems_def)

lemma Set_elems_Set_clear [simp]: "Set_elems (Set_clear s) = []"
  by (simp add: Set_clear_def Set_elems_def)

lemma Set_elems_executeGit [simp]: "Set_elems (executeGit a d s) = Set_elems s"
  by (simp add: executeGit_def)

lemma cycles_frame [simp]:
  "cycles (Set_add x s) = cycles s"
  "cycles (Set_clear s) = cycles s"
  "cycles (executeGit a d s) = cycles s"
  "cycles (updateStatusBar w s) = cycles s"
  "cycles (notifyUpdatesAvailable n m s) = cycles s"
  "cycles (start_armTimer w cfg s) = cycles s"
  "cycles (resumeAwaiter w aw r s) = cycles s"
  by (simp_all add: Set_add_def Set_clear_def executeGit_def updateStatusBar_def
      notifyUpdatesAvailable_def start_armTimer_def resumeAwaiter_def Let_def
      split: awaiter.splits sum.splits)

subsection \<open>Blanking out the timer and the status bar commutes with resuming tasks\<close>

lemma erase_simps [simp]:
  "Set_elems (withoutTimerAndStatusBar s) = Set_elems s"
  "cycles (withoutTimerAndStatusBar s) = cycles s"
  "withoutTimerAndStatusBar (withoutTimerAndStatusBar s) = withoutTimerAndStatusBar s"
  "withoutTimerAndStatusBar (executeGit a d s) = executeGit a d (withoutTimerAndStatusBar s)"
  "withoutTimerAndStatusBar (updateStatusBar w s) = withoutTimerAndStatusBar s"
  "withoutTimerAndStatusBar (start_armTimer w cfg s) = withoutTimerAndStatusBar s"
  "withoutTimerAndStatusBar (notifyUpdatesAvailable n m s) =
     notifyUpdatesAvailable n m (withoutTimerAndStatusBar s)"
  "withoutTimerAndStatusBar (s\<lparr>cycles := cs\<rparr>) = (withoutTimerAndStatusBar s)\<lparr>cycles := cs\<rparr>"
  by (simp_all add: withoutTimerAndStatusBar_def executeGit_def
      updateStatusBar_def start_armTimer_def notifyUpdatesAvailable_def Let_def)

lemma erase_Set_add [simp]:
  "withoutTimerAndStatusBar (Set_add x s) = Set_add x (withoutTimerAndStatusBar s)"
  by (simp add: Set_add_def) (simp add: withoutTimerAndStatusBar_def)

lemma erase_stop [simp]:
  "withoutTimerAndStatusBar (stop s) = withoutTimerAndStatusBar s"
  by (cases "intervalId s") (simp_all add: stop_def withoutTimerAndStatusBar_def)

lemma erase_resumeAwaiter [simp]:
  "withoutTimerAndStatusBar (resumeAwaiter w a r s) = withoutTimerAndStatusBar s"
  by (simp add: resumeAwaiter_def split: awaiter.splits sum.splits)

lemma erase_lambda_resume:
  "\<not> isSettled (stage t) \<Longrightarrow>
   lambda_resume w cfg t f (withoutTimerAndStatusBar s) =
     (case lambda_resume w cfg t f s of (st, f', s') \<Rightarrow> (st, f', withoutTimerAndStatusBar s'))"
proof (cases "stage t")
  case AwaitFetch
  then show ?thesis
    by (simp add: lambda_resume_AwaitFetch split: sum.splits)
      (simp add: withoutTimerAndStatusBar_def)
next
  case AwaitRevList
  then show ?thesis
    by (simp add: lambda_resume_AwaitRevList split: sum.splits)
      (simp add: withoutTimerAndStatusBar_def)
next
  case AwaitPull
  then show ?thesis
    by (simp add: lambda_resume_AwaitPull split: sum.splits)
      (simp add: withoutTimerAndStatusBar_def)
next
  case (Settled r)
  moreover assume "\<not> isSettled (stage t)"
  ultimately show ?thesis by simp
qed

lemma erase_afterAll:
  "withoutTimerAndStatusBar (checkForUpdates_afterAll w c (withoutTimerAndStatusBar s)) =
   withoutTimerAndStatusBar (checkForUpdates_afterAll w c s)"
  by (simp add: checkForUpdates_afterAll_def Let_def)

lemma erase_awaitPromiseAll:
  "withoutTimerAndStatusBar (awaitPromiseAll w c (withoutTimerAndStatusBar s)) =
   withoutTimerAndStatusBar (awaitPromiseAll w c s)"
proof (cases "outcome (cycles s ! c) \<noteq> None")
  case True
  then show ?thesis
    by (simp add: awaitPromiseAll_def Let_def)
next
  case pending: False
  show ?thesis
  proof (cases "List.map_filter (\<lambda>t. rejection (stage t)) (tasks (cycles s ! c))")
    case (Cons e es)
    with pending show ?thesis
      by (simp add: awaitPromiseAll_def Let_def)
  next
    case Nil
    show ?thesis
    proof (cases "list_all (\<lambda>t. isSettled (stage t)) (tasks (cycles s ! c))")
      case True
      with pending Nil show ?thesis
        by (simp add: awaitPromiseAll_def Let_def erase_afterAll)
    next
      case False
      with pending Nil show ?thesis
        by (simp add: awaitPromiseAll_def Let_def)
    qed
  qed
qed

lemma erase_fields:
  "lastCheckTime (withoutTimerAndStatusBar s) = lastCheckTime s"
  "messages (withoutTimerAndStatusBar s) = messages s"
  "registryLog (withoutTimerAndStatusBar s) = registryLog s"
  "gitLog (withoutTimerAndStatusBar s) = gitLog s"
  "consoleErrors (withoutTimerAndStatusBar s) = consoleErrors s"
  by (simp_all add: withoutTimerAndStatusBar_def)

lemma primitive_frame [simp]:
  "intervalId (Set_add x s) = intervalId s"
  "timers (Set_add x s) = timers s"
  "nextTimerId (Set_add x s) = nextTimerId s"
  "statusBarVisible (Set_add x s) = statusBarVisible s"
  "statusBarText (Set_add x s) = statusBarText s"
  "lastCheckTime (Set_add x s) = lastCheckTime s"
  "projectsWithUpdates (Set_add x s) = projectsWithUpdates s"
  "nextRef (Set_add x s) = nextRef s"
  "gitLog (Set_add x s) = gitLog s"
  "registryLog (Set_add x s) = registryLog s"
  "messages (Set_add x s) = messages s"
  "consoleErrors (Set_add x s) = consoleErrors s"
  "intervalId (executeGit a d s) = intervalId s"
  "timers (executeGit a d s) = timers s"
  "nextTimerId (executeGit a d s) = nextTimerId s"
  "statusBarVisible (executeGit a d s) = statusBarVisible s"
  "statusBarText (executeGit a d s) = statusBarText s"
  "lastCheckTime (executeGit a d s) = lastCheckTime s"
  "projectsWithUpdates (executeGit a d s) = projectsWithUpdates s"
  "nextRef (executeGit a d s) = nextRef s"
  "gitLog (executeGit a d s) = gitLog s @ [(a, d)]"
  "registryLog (executeGit a d s) = registryLog s"
  "messages (executeGit a d s) = messages s"
  "consoleErrors (executeGit a d s) = consoleErrors s"
  by (simp_all add: Set_add_def executeGit_def)

lemma lambda_resume_unchanged:
  assumes "\<not> isSettled (stage t)"
  shows "cycles (snd (snd (lambda_resume w cfg t f s))) = cycles s"
    and "intervalId (snd (snd (lambda_resume w cfg t f s))) = intervalId s"
    and "timers (snd (snd (lambda_resume w cfg t f s))) = timers s"
    and "nextTimerId (snd (snd (lambda_resume w cfg t f s))) = nextTimerId s"
    and "lastCheckTime (snd (snd (lambda_resume w cfg t f s))) = lastCheckTime s"
    and "projectsWithUpdates (snd (snd (lambda_resume w cfg t f s))) = projectsWithUpdates s"
    and "nextRef (snd (snd (lambda_resume w cfg t f s))) = nextRef s"
  using assms
  by (cases "stage t";
      simp add: lambda_resume_AwaitFetch lambda_resume_AwaitRevList lambda_resume_AwaitPull
        split: sum.splits)+

lemma settle_unfold:
  assumes "c < length (cycles s)" and "i < length (tasks (cycles s ! c))"
    and "\<not> isSettled (stage (tasks (cycles s ! c) ! i))"
    and "lambda_resume w (config (cycles s ! c)) (tasks (cycles s ! c) ! i)
           (updatesFound (cycles s ! c)) s = (st, f', s1)"
  shows "settle w c i s =
           awaitPromiseAll w c
             (s1\<lparr>cycles := (cycles s)
                  [c := (cycles s ! c)\<lparr>updatesFound := f',
                          tasks := (tasks (cycles s ! c))
                             [i := (tasks (cycles s ! c) ! i)\<lparr>stage := st\<rparr>]\<rparr>]\<rparr>)"
proof -
  have "cycles s1 = cycles s"
    using lambda_resume_unchanged(1) [OF assms(3), of w "config (cycles s ! c)" "updatesFound (cycles s ! c)" s]
    by (simp add: assms(4))
  with assms show ?thesis
    by (simp add: settle_def resumeTask_def Let_def)
qed

lemma erase_settle:
  "withoutTimerAndStatusBar (settle w c i (withoutTimerAndStatusBar s)) =
   withoutTimerAndStatusBar (settle w c i s)"
proof (cases "c < length (cycles s) \<and> i < length (tasks (cycles s ! c)) \<and>
         \<not> isSettled (stage (tasks (cycles s ! c) ! i))")
  case False
  then show ?thesis
    by (simp only: settle_def erase_simps(2,3) if_False)
next
  case True
  let ?cyc = "cycles s ! c"
  let ?t = "tasks ?cyc ! i"
  obtain st f' s1 where l: "lambda_resume w (config ?cyc) ?t (updatesFound ?cyc) s = (st, f', s1)"
    by (metis prod_cases3)
  from True have ns: "\<not> isSettled (stage ?t)"
    by simp
  have le: "lambda_resume w (config ?cyc) ?t (updatesFound ?cyc) (withoutTimerAndStatusBar s) =
              (st, f', withoutTimerAndStatusBar s1)"
    using erase_lambda_resume [OF ns] l by simp
  let ?cs = "(cycles s)[c := ?cyc\<lparr>updatesFound := f', tasks := (tasks ?cyc)[i := ?t\<lparr>stage := st\<rparr>]\<rparr>]"
  have a: "settle w c i s = awaitPromiseAll w c (s1\<lparr>cycles := ?cs\<rparr>)"
    using True l by (intro settle_unfold) simp_all
  have b: "settle w c i (withoutTimerAndStatusBar s) =
             awaitPromiseAll w c (withoutTimerAndStatusBar (s1\<lparr>cycles := ?cs\<rparr>))"
    using True le settle_unfold [of c "withoutTimerAndStatusBar s" i w st f' "withoutTimerAndStatusBar s1"]
    by simp
  show ?thesis
    unfolding a b by (rule erase_awaitPromiseAll)
qed

lemma erase_pendingStarts [simp]:
  "pendingStarts (withoutTimerAndStatusBar s) = pendingStarts s"
  "withoutTimerAndStatusBar (s\<lparr>pendingStarts := ps\<rparr>) = (withoutTimerAndStatusBar s)\<lparr>pendingStarts := ps\<rparr>"
  by (simp_all add: withoutTimerAndStatusBar_def)

lemma erase_resumeStart:
  "withoutTimerAndStatusBar (resumeStart w (withoutTimerAndStatusBar s)) =
   withoutTimerAndStatusBar (resumeStart w s)"
  by (cases "pendingStarts s") (simp_all add: resumeStart_def)

lemma erase_step:
  "isResumption e \<Longrightarrow>
   withoutTimerAndStatusBar (step w e (withoutTimerAndStatusBar s)) =
   withoutTimerAndStatusBar (step w e s)"
  by (cases e) (simp_all add: erase_settle erase_resumeStart)

lemma erase_run:
  "list_all isResumption evs \<Longrightarrow>
   withoutTimerAndStatusBar (run w evs (withoutTimerAndStatusBar s)) =
   withoutTimerAndStatusBar (run w evs s)"
proof (induction evs arbitrary: s)
  case Nil
  then show ?case by simp
next
  case (Cons e evs)
  then have e: "isResumption e"
    by simp
  from Cons have ih: "\<And>s. withoutTimerAndStatusBar (run w evs (withoutTimerAndStatusBar s)) =
      withoutTimerAndStatusBar (run w evs s)"
    by simp
  have "withoutTimerAndStatusBar (run w (e # evs) (withoutTimerAndStatusBar s)) =
        withoutTimerAndStatusBar (run w evs (step w e (withoutTimerAndStatusBar s)))"
    by simp
  also have "\<dots> = withoutTimerAndStatusBar
        (run w evs (withoutTimerAndStatusBar (step w e (withoutTimerAndStatusBar s))))"
    by (simp only: ih)
  also have "\<dots> = withoutTimerAndStatusBar (run w evs (withoutTimerAndStatusBar (step w e s)))"
    by (simp only: erase_step [OF e])
  also have "\<dots> = withoutTimerAndStatusBar (run w evs (step w e s))"
    by (simp only: ih)
  finally show ?case
    by simp
qed

lemma run_after_stop:
  assumes "list_all isResumption evs"
  shows "withoutTimerAndStatusBar (run w evs (stop s)) = withoutTimerAndStatusBar (run w evs s)"
proof -
  have "withoutTimerAndStatusBar (run w evs (stop s)) =
        withoutTimerAndStatusBar (run w evs (withoutTimerAndStatusBar (stop s)))"
    by (rule erase_run [OF assms, symmetric])
  also have "\<dots> = withoutTimerAndStatusBar (run w evs (withoutTimerAndStatusBar s))"
    by (simp only: erase_stop)
  also have "\<dots> = withoutTimerAndStatusBar (run w evs s)"
    by (rule erase_run [OF assms])
  finally show ?thesis .
qed

subsection \<open>Promise.all, and cycles that no start() awaits\<close>

lemma awaitPromiseAll_cases:
  obtains (unchanged) "awaitPromiseAll w c s = s"
  | (rejected) e where
      "awaitPromiseAll w c s =
         resumeAwaiter w (awaitedBy (cycles s ! c)) (Inl e)
           (s\<lparr>cycles := (cycles s)[c := (cycles s ! c)\<lparr>outcome := Some (Inl e)\<rparr>]\<rparr>)"
  | (fulfilled) "outcome (cycles s ! c) = None"
      "list_all (\<lambda>t. isSettled (stage t)) (tasks (cycles s ! c))"
      "awaitPromiseAll w c s = checkForUpdates_afterAll w c s"
proof (cases "outcome (cycles s ! c) \<noteq> None")
  case True
  then show ?thesis
    by (intro unchanged) (simp add: awaitPromiseAll_def Let_def)
next
  case pending: False
  show ?thesis
  proof (cases "List.map_filter (\<lambda>t. rejection (stage t)) (tasks (cycles s ! c))")
    case (Cons e es)
    with pending show ?thesis
      by (intro rejected [of e]) (simp add: awaitPromiseAll_def Let_def)
  next
    case Nil
    show ?thesis
    proof (cases "list_all (\<lambda>t. isSettled (stage t)) (tasks (cycles s ! c))")
      case True
      with pending Nil show ?thesis
        by (intro fulfilled) (simp_all add: awaitPromiseAll_def Let_def)
    next
      case False
      with pending Nil show ?thesis
        by (intro unchanged) (simp add: awaitPromiseAll_def Let_def)
    qed
  qed
qed

lemma timer_frame [simp]:
  "intervalId (updateStatusBar w s) = intervalId s"
  "intervalId (notifyUpdatesAvailable n m s) = intervalId s"
  "intervalId (resumeAwaiter w Detached r s) = intervalId s"
  by (simp_all add: updateStatusBar_def notifyUpdatesAvailable_def resumeAwaiter_def)

lemma map_update_same:
  "f y = f (xs ! i) \<Longrightarrow> map f (xs[i := y]) = map f xs"
  by (induction xs arbitrary: i) (auto split: nat.splits)

lemma pendingStarts_frame [simp]:
  "pendingStarts (updateStatusBar w s) = pendingStarts s"
  "pendingStarts (notifyUpdatesAvailable n m s) = pendingStarts s"
  "pendingStarts (resumeAwaiter w Detached r s) = pendingStarts s"
  by (simp_all add: updateStatusBar_def notifyUpdatesAvailable_def resumeAwaiter_def)

lemma startWaiting_update:
  assumes "\<not> list_ex startWaiting cs"
    and "c < length cs \<longrightarrow> \<not> startWaiting y"
  shows "\<not> list_ex startWaiting (cs[c := y])"
proof (cases "c < length cs")
  case True
  with assms show ?thesis
    by (auto simp: list_ex_iff dest!: set_update_subset_insert [THEN subsetD])
next
  case False
  then have "cs[c := y] = cs"
    by (simp add: list_update_beyond)
  with assms(1) show ?thesis
    by simp
qed

lemma awaitPromiseAll_noStart:
  assumes "\<not> list_ex startWaiting (cycles s)" and "c < length (cycles s)"
  shows "intervalId (awaitPromiseAll w c s) = intervalId s"
    and "pendingStarts (awaitPromiseAll w c s) = pendingStarts s"
    and "\<not> list_ex startWaiting (cycles (awaitPromiseAll w c s))"
proof -
  have u: "\<And>r. \<not> list_ex startWaiting ((cycles s)[c := (cycles s ! c)\<lparr>outcome := Some r\<rparr>])"
    using assms(1) by (rule startWaiting_update) (simp add: startWaiting_def)
  show "intervalId (awaitPromiseAll w c s) = intervalId s"
    and "pendingStarts (awaitPromiseAll w c s) = pendingStarts s"
    and "\<not> list_ex startWaiting (cycles (awaitPromiseAll w c s))"
  proof (atomize (full), cases "outcome (cycles s ! c) = None")
    case False
    then have "awaitPromiseAll w c s = s"
      by (simp add: awaitPromiseAll_def Let_def)
    with assms(1) show "intervalId (awaitPromiseAll w c s) = intervalId s \<and>
      pendingStarts (awaitPromiseAll w c s) = pendingStarts s \<and>
      \<not> list_ex startWaiting (cycles (awaitPromiseAll w c s))"
      by simp
  next
    case True
    moreover from assms have "\<not> startWaiting (cycles s ! c)"
      by (simp add: list_ex_iff)
    ultimately have d: "awaitedBy (cycles s ! c) = Detached"
      by (simp add: startWaiting_def)
    show "intervalId (awaitPromiseAll w c s) = intervalId s \<and>
      pendingStarts (awaitPromiseAll w c s) = pendingStarts s \<and>
      \<not> list_ex startWaiting (cycles (awaitPromiseAll w c s))"
      using assms(1) u d
      by (cases rule: awaitPromiseAll_cases [of w c s];
          simp add: checkForUpdates_afterAll_def Let_def)
  qed
qed

lemma pendingStarts_lambda_resume:
  assumes "\<not> isSettled (stage t)"
  shows "pendingStarts (snd (snd (lambda_resume w cfg t f s))) = pendingStarts s"
  using assms
  by (cases "stage t";
      simp add: lambda_resume_AwaitFetch lambda_resume_AwaitRevList lambda_resume_AwaitPull
        Set_add_def executeGit_def split: sum.splits)

lemma settle_noStart:
  assumes "\<not> list_ex startWaiting (cycles s)"
  shows "intervalId (settle w c i s) = intervalId s \<and>
         pendingStarts (settle w c i s) = pendingStarts s \<and>
         \<not> list_ex startWaiting (cycles (settle w c i s))"
proof (cases "c < length (cycles s) \<and> i < length (tasks (cycles s ! c)) \<and>
         \<not> isSettled (stage (tasks (cycles s ! c) ! i))")
  case False
  then have "settle w c i s = s"
    by (simp only: settle_def if_False)
  with assms show ?thesis by simp
next
  case True
  let ?cyc = "cycles s ! c"
  let ?t = "tasks ?cyc ! i"
  obtain st f' s1 where l: "lambda_resume w (config ?cyc) ?t (updatesFound ?cyc) s = (st, f', s1)"
    by (metis prod_cases3)
  from True have ns: "\<not> isSettled (stage ?t)" and c: "c < length (cycles s)"
    by simp_all
  let ?y = "?cyc\<lparr>updatesFound := f', tasks := (tasks ?cyc)[i := ?t\<lparr>stage := st\<rparr>]\<rparr>"
  let ?s2 = "s1\<lparr>cycles := (cycles s)[c := ?y]\<rparr>"
  have a: "settle w c i s = awaitPromiseAll w c ?s2"
    using True l by (intro settle_unfold) simp_all
  have i1: "intervalId s1 = intervalId s"
    using lambda_resume_unchanged(2) [OF ns, of w "config ?cyc" "updatesFound ?cyc" s] l by simp
  have p1: "pendingStarts s1 = pendingStarts s"
    using pendingStarts_lambda_resume [OF ns, of w "config ?cyc" "updatesFound ?cyc" s] l by simp
  have "\<not> startWaiting ?cyc"
    using assms c by (auto simp: list_ex_iff)
  then have "\<not> startWaiting ?y"
    by (simp add: startWaiting_def)
  with assms have n2: "\<not> list_ex startWaiting (cycles ?s2)"
    by (simp add: startWaiting_update)
  have c2: "c < length (cycles ?s2)"
    using c by simp
  from awaitPromiseAll_noStart [OF n2 c2, of w] i1 p1 show ?thesis
    unfolding a by simp
qed

lemma resumeStart_noStart:
  assumes "pendingStarts s = []"
  shows "resumeStart w s = s"
  using assms by (simp add: resumeStart_def)

lemma run_noStart:
  assumes "list_all isResumption evs"
    and "pendingStarts s = []" and "\<not> list_ex startWaiting (cycles s)"
  shows "intervalId (run w evs s) = intervalId s"
  using assms
proof (induction evs arbitrary: s)
  case Nil
  then show ?case by simp
next
  case (Cons e evs)
  show ?case
  proof (cases e)
    case (Settle c i)
    from settle_noStart [OF Cons.prems(3), of w c i] Cons.IH [of "settle w c i s"] Cons.prems(1,2)
    show ?thesis
      by (simp add: Settle)
  next
    case Resume_start
    from Cons.IH [of s] Cons.prems show ?thesis
      by (simp add: Resume_start resumeStart_noStart)
  qed (use Cons.prems(1) in simp_all)
qed

subsection \<open>What one resumption changes\<close>

lemma lambda_resume_stage:
  "\<not> isSettled (stage t) \<Longrightarrow> fst (lambda_resume w cfg t f s) = nextStage w cfg t"
  by (cases "stage t";
      simp add: lambda_resume_AwaitFetch lambda_resume_AwaitRevList lambda_resume_AwaitPull
        nextStage_def fetchOk_def revListBehind_def split: sum.splits)

lemma lambda_resume_found:
  "\<not> isSettled (stage t) \<Longrightarrow>
   fst (snd (lambda_resume w cfg t f s)) =
     (if stage t = AwaitRevList \<and> revListBehind w (project t) then f + 1 else f)"
  by (cases "stage t";
      simp add: lambda_resume_AwaitFetch lambda_resume_AwaitRevList lambda_resume_AwaitPull
        revListBehind_def split: sum.splits)

lemma lambda_resume_Set_elems:
  "\<not> isSettled (stage t) \<Longrightarrow>
   Set_elems (snd (snd (lambda_resume w cfg t f s))) =
     (if stage t = AwaitRevList \<and> revListBehind w (project t)
      then (if name (project t) \<in> set (Set_elems s) then Set_elems s
            else Set_elems s @ [name (project t)])
      else Set_elems s)"
  by (cases "stage t";
      simp add: lambda_resume_AwaitFetch lambda_resume_AwaitRevList lambda_resume_AwaitPull
        revListBehind_def split: sum.splits)

lemma lambda_resume_registryLog:
  "\<not> isSettled (stage t) \<Longrightarrow>
   registryLog (snd (snd (lambda_resume w cfg t f s))) =
     registryLog s @ (if stage t = AwaitPull \<and> pullOk w (project t) then [name (project t)] else [])"
  by (cases "stage t";
      simp add: lambda_resume_AwaitFetch lambda_resume_AwaitRevList lambda_resume_AwaitPull
        pullOk_def split: sum.splits)

lemma lambda_resume_messages:
  "\<not> isSettled (stage t) \<Longrightarrow>
   messages (snd (snd (lambda_resume w cfg t f s))) =
     messages s @ (if stage t = AwaitPull then [pullMessage w (project t)] else [])"
  by (cases "stage t";
      simp add: lambda_resume_AwaitFetch lambda_resume_AwaitRevList lambda_resume_AwaitPull
        pullMessage_def split: sum.splits)

lemma lambda_resume_gitLog:
  "\<not> isSettled (stage t) \<Longrightarrow>
   gitLog (snd (snd (lambda_resume w cfg t f s))) =
     gitLog s @
       (case nextStage w cfg t of
          AwaitRevList \<Rightarrow> [([''rev-list'', ''HEAD..origin/HEAD'', ''--count''], folderPath (project t))]
        | AwaitPull \<Rightarrow> [([''pull'', ''origin''], folderPath (project t))]
        | _ \<Rightarrow> [])"
  by (cases "stage t";
      simp add: lambda_resume_AwaitFetch lambda_resume_AwaitRevList lambda_resume_AwaitPull
        nextStage_def fetchOk_def revListBehind_def split: sum.splits)

lemma lambda_resume_consoleErrors:
  "\<not> isSettled (stage t) \<Longrightarrow>
   consoleErrors (snd (snd (lambda_resume w cfg t f s))) = consoleErrors s @ stepErrors w t"
  by (cases "stage t";
      simp add: lambda_resume_AwaitFetch lambda_resume_AwaitRevList lambda_resume_AwaitPull
        stepErrors_def split: sum.splits)

lemma epilogue_frame [simp]:
  "Set_elems (updateStatusBar w s) = Set_elems s"
  "Set_elems (notifyUpdatesAvailable n m s) = Set_elems s"
  "Set_elems (start_armTimer w cfg s) = Set_elems s"
  "Set_elems (resumeAwaiter w a r s) = Set_elems s"
  "registryLog (updateStatusBar w s) = registryLog s"
  "registryLog (notifyUpdatesAvailable n m s) = registryLog s"
  "registryLog (start_armTimer w cfg s) = registryLog s"
  "registryLog (resumeAwaiter w a r s) = registryLog s"
  "gitLog (updateStatusBar w s) = gitLog s"
  "gitLog (notifyUpdatesAvailable n m s) = gitLog s"
  "gitLog (start_armTimer w cfg s) = gitLog s"
  "gitLog (resumeAwaiter w a r s) = gitLog s"
  "consoleErrors (updateStatusBar w s) = consoleErrors s"
  "consoleErrors (notifyUpdatesAvailable n m s) = consoleErrors s"
  "consoleErrors (start_armTimer w cfg s) = consoleErrors s"
  "consoleErrors (resumeAwaiter w a r s) = consoleErrors s"
  "messages (updateStatusBar w s) = messages s"
  "messages (start_armTimer w cfg s) = messages s"
  "messages (resumeAwaiter w a r s) = messages s"
  by (simp_all add: updateStatusBar_def notifyUpdatesAvailable_def start_armTimer_def
      resumeAwaiter_def Let_def split: awaiter.splits sum.splits)

lemma afterAll_fields:
  "Set_elems (checkForUpdates_afterAll w c s) = Set_elems s"
  "registryLog (checkForUpdates_afterAll w c s) = registryLog s"
  "gitLog (checkForUpdates_afterAll w c s) = gitLog s"
  "consoleErrors (checkForUpdates_afterAll w c s) = consoleErrors s"
  "cycles (checkForUpdates_afterAll w c s) =
     (cycles s)[c := (cycles s ! c)\<lparr>outcome := Some (Inr ())\<rparr>]"
  "messages (checkForUpdates_afterAll w c s) =
     messages s @
       (if updatesFound (cycles s ! c) > 0 \<and> notifyOnUpdates (config (cycles s ! c))
        then [if autoMerge (config (cycles s ! c))
              then AutoSyncedAggregate (updatesFound (cycles s ! c)) (Set_elems s)
              else UpdatesAvailable (updatesFound (cycles s ! c)) (Set_elems s)]
        else [])"
  by (simp_all add: checkForUpdates_afterAll_def Let_def notifyUpdatesAvailable_def)

lemma resumeTask_eq:
  assumes "\<not> isSettled (stage (tasks (cycles s ! c) ! i))"
  shows "resumeTask w c i s =
     (snd (snd (lambda_resume w (config (cycles s ! c)) (tasks (cycles s ! c) ! i)
                  (updatesFound (cycles s ! c)) s)))
       \<lparr>cycles := (cycles s)
          [c := (cycles s ! c)
             \<lparr>updatesFound :=
                (if stage (tasks (cycles s ! c) ! i) = AwaitRevList \<and>
                    revListBehind w (project (tasks (cycles s ! c) ! i))
                 then updatesFound (cycles s ! c) + 1 else updatesFound (cycles s ! c)),
              tasks := (tasks (cycles s ! c))
                [i := (tasks (cycles s ! c) ! i)
                   \<lparr>stage := nextStage w (config (cycles s ! c)) (tasks (cycles s ! c) ! i)\<rparr>]\<rparr>]\<rparr>"
proof -
  let ?cyc = "cycles s ! c"
  let ?t = "tasks ?cyc ! i"
  let ?r = "lambda_resume w (config ?cyc) ?t (updatesFound ?cyc) s"
  have r: "?r = (fst ?r, fst (snd ?r), snd (snd ?r))"
    by simp
  have "resumeTask w c i s =
          (snd (snd ?r))\<lparr>cycles := (cycles (snd (snd ?r)))
             [c := ?cyc\<lparr>updatesFound := fst (snd ?r),
                        tasks := (tasks ?cyc)[i := ?t\<lparr>stage := fst ?r\<rparr>]\<rparr>]\<rparr>"
    by (subst r) (simp add: resumeTask_def Let_def split: prod.splits)
  then show ?thesis
    by (simp add: lambda_resume_stage [OF assms] lambda_resume_found [OF assms]
        lambda_resume_unchanged(1) [OF assms])
qed

lemma resumeTask_fields:
  assumes "\<not> isSettled (stage (tasks (cycles s ! c) ! i))"
  shows "Set_elems (resumeTask w c i s) =
           (if stage (tasks (cycles s ! c) ! i) = AwaitRevList \<and>
               revListBehind w (project (tasks (cycles s ! c) ! i))
            then (if name (project (tasks (cycles s ! c) ! i)) \<in> set (Set_elems s) then Set_elems s
                  else Set_elems s @ [name (project (tasks (cycles s ! c) ! i))])
            else Set_elems s)"
    and "registryLog (resumeTask w c i s) =
           registryLog s @
             (if stage (tasks (cycles s ! c) ! i) = AwaitPull \<and> pullOk w (project (tasks (cycles s ! c) ! i))
              then [name (project (tasks (cycles s ! c) ! i))] else [])"
    and "messages (resumeTask w c i s) =
           messages s @
             (if stage (tasks (cycles s ! c) ! i) = AwaitPull
              then [pullMessage w (project (tasks (cycles s ! c) ! i))] else [])"
    and "gitLog (resumeTask w c i s) =
           gitLog s @
             (case nextStage w (config (cycles s ! c)) (tasks (cycles s ! c) ! i) of
                AwaitRevList \<Rightarrow>
                  [([''rev-list'', ''HEAD..origin/HEAD'', ''--count''],
                    folderPath (project (tasks (cycles s ! c) ! i)))]
              | AwaitPull \<Rightarrow> [([''pull'', ''origin''], folderPath (project (tasks (cycles s ! c) ! i)))]
              | _ \<Rightarrow> [])"
    and "consoleErrors (resumeTask w c i s) =
           consoleErrors s @ stepErrors w (tasks (cycles s ! c) ! i)"
  by (simp_all add: resumeTask_eq [OF assms] lambda_resume_Set_elems [OF assms]
      lambda_resume_registryLog [OF assms] lambda_resume_messages [OF assms]
      lambda_resume_gitLog [OF assms] lambda_resume_consoleErrors [OF assms])

subsection \<open>A cycle in flight on its own\<close>

lemma stageOK_next:
  "stageOK w cfg t \<Longrightarrow> \<not> isSettled (stage t) \<Longrightarrow>
   stageOK w cfg (t\<lparr>stage := nextStage w cfg t\<rparr>)"
  by (cases "stage t") (simp_all add: stageOK_def nextStage_def hasUpdate_def)

lemma added_next:
  "stageOK w cfg t \<Longrightarrow> \<not> isSettled (stage t) \<Longrightarrow>
   added w (t\<lparr>stage := nextStage w cfg t\<rparr>) =
     (added w t \<or> stage t = AwaitRevList \<and> revListBehind w (project t))"
  by (cases "stage t") (auto simp: stageOK_def nextStage_def hasUpdate_def added_def)

lemma no_rejection:
  "list_all (stageOK w cfg) ts \<Longrightarrow> List.map_filter (\<lambda>t. rejection (stage t)) ts = []"
proof (induction ts)
  case Nil
  then show ?case by (simp add: List.map_filter_simps)
next
  case (Cons t ts)
  then have "rejection (stage t) = None"
    by (cases "stage t") (simp_all add: stageOK_def)
  with Cons show ?case
    by (simp add: List.map_filter_simps)
qed

lemma settledAll_update:
  "j < length ts \<Longrightarrow> \<not> isSettled (stage (ts ! j)) \<Longrightarrow> \<not> settledAll ts"
  by (auto simp: settledAll_def list_all_length)

lemma list_all_update:
  "list_all P xs \<Longrightarrow> P y \<Longrightarrow> list_all P (xs[i := y])"
  by (induction xs arbitrary: i) (auto split: nat.splits)

lemma settle_core:
  assumes "cycleCore w c s"
  shows "settle w k j s =
     (if k = c \<and> j < length (tasks (cycles s ! c)) \<and>
         \<not> isSettled (stage (tasks (cycles s ! c) ! j))
      then (if settledAll (tasks (cycles (resumeTask w c j s) ! c))
            then checkForUpdates_afterAll w c (resumeTask w c j s)
            else resumeTask w c j s)
      else s)"
proof (cases "k = c \<and> j < length (tasks (cycles s ! c)) \<and>
         \<not> isSettled (stage (tasks (cycles s ! c) ! j))")
  case False
  have "\<not> (k < length (cycles s) \<and> j < length (tasks (cycles s ! k)) \<and>
           \<not> isSettled (stage (tasks (cycles s ! k) ! j)))"
  proof (cases "k = c")
    case True
    with False show ?thesis by simp
  next
    case other: False
    show ?thesis
    proof
      assume a: "k < length (cycles s) \<and> j < length (tasks (cycles s ! k)) \<and>
           \<not> isSettled (stage (tasks (cycles s ! k) ! j))"
      with other assms have "settledAll (tasks (cycles s ! k))"
        by (simp add: cycleCore_def)
      with a show False
        using settledAll_update by blast
    qed
  qed
  then have "settle w k j s = s"
    by (simp only: settle_def if_False)
  with False show ?thesis
    by (simp only: if_False)
next
  case True
  let ?cyc = "cycles s ! c"
  let ?t = "tasks ?cyc ! j"
  let ?s2 = "resumeTask w c j s"
  from True have kc: "k = c" and j: "j < length (tasks ?cyc)" and ns: "\<not> isSettled (stage ?t)"
    by simp_all
  from assms have c: "c < length (cycles s)"
    and ok: "list_all (stageOK w (config ?cyc)) (tasks ?cyc)"
    and out: "outcome ?cyc = (if settledAll (tasks ?cyc) then Some (Inr ()) else None)"
    by (simp_all add: cycleCore_def)
  from j ns have "\<not> settledAll (tasks ?cyc)"
    by (rule settledAll_update)
  with out have pending: "outcome ?cyc = None"
    by simp
  have okt: "stageOK w (config ?cyc) ?t"
    using ok j by (simp add: list_all_length)
  have cyc2: "cycles ?s2 ! c =
      ?cyc\<lparr>updatesFound :=
               (if stage ?t = AwaitRevList \<and> revListBehind w (project ?t)
                then updatesFound ?cyc + 1 else updatesFound ?cyc),
            tasks := (tasks ?cyc)[j := ?t\<lparr>stage := nextStage w (config ?cyc) ?t\<rparr>]\<rparr>"
    using c by (simp add: resumeTask_eq [OF ns])
  have ok2: "list_all (stageOK w (config ?cyc)) (tasks (cycles ?s2 ! c))"
    unfolding cyc2 using ok stageOK_next [OF okt ns] by (simp add: list_all_update)
  have rej: "List.map_filter (\<lambda>t. rejection (stage t)) (tasks (cycles ?s2 ! c)) = []"
    using ok2 by (rule no_rejection)
  have pending2: "outcome (cycles ?s2 ! c) = None"
    unfolding cyc2 using pending by simp
  have "awaitPromiseAll w c ?s2 =
          (if settledAll (tasks (cycles ?s2 ! c)) then checkForUpdates_afterAll w c ?s2 else ?s2)"
    using rej pending2 by (simp add: awaitPromiseAll_def Let_def settledAll_def)
  moreover have "settle w k j s = awaitPromiseAll w c ?s2"
    using True c by (simp add: settle_def)
  ultimately show ?thesis
    using True by simp
qed

lemma settle_noop:
  assumes "cycleCore w c s"
    and "\<not> (k = c \<and> j < length (tasks (cycles s ! c)) \<and>
             \<not> isSettled (stage (tasks (cycles s ! c) ! j)))"
  shows "settle w k j s = s"
  using assms(2) by (simp only: settle_core [OF assms(1)] if_False)

lemma settle_step_cycles:
  assumes "cycleCore w c s"
    and "j < length (tasks (cycles s ! c))"
    and "\<not> isSettled (stage (tasks (cycles s ! c) ! j))"
  shows "cycles (settle w c j s) =
     (cycles s)
       [c := (cycles s ! c)
          \<lparr>updatesFound :=
             (if stage (tasks (cycles s ! c) ! j) = AwaitRevList \<and>
                 revListBehind w (project (tasks (cycles s ! c) ! j))
              then updatesFound (cycles s ! c) + 1 else updatesFound (cycles s ! c)),
           tasks := (tasks (cycles s ! c))
             [j := (tasks (cycles s ! c) ! j)
                \<lparr>stage := nextStage w (config (cycles s ! c)) (tasks (cycles s ! c) ! j)\<rparr>],
           outcome :=
             (if settledAll ((tasks (cycles s ! c))
                   [j := (tasks (cycles s ! c) ! j)
                      \<lparr>stage := nextStage w (config (cycles s ! c)) (tasks (cycles s ! c) ! j)\<rparr>])
              then Some (Inr ()) else None)\<rparr>]"
proof -
  let ?cyc = "cycles s ! c"
  let ?t = "tasks ?cyc ! j"
  from assms(1) have c: "c < length (cycles s)"
    and out: "outcome ?cyc = (if settledAll (tasks ?cyc) then Some (Inr ()) else None)"
    by (simp_all add: cycleCore_def)
  from assms(2,3) have "\<not> settledAll (tasks ?cyc)"
    by (rule settledAll_update)
  with out have pending: "outcome ?cyc = None"
    by simp
  have e: "?cyc\<lparr>outcome := None\<rparr> = ?cyc"
    using pending by simp
  show ?thesis
    using assms(2,3) c pending
    by (simp add: settle_core [OF assms(1)] afterAll_fields resumeTask_eq [OF assms(3)])
      (metis (no_types, lifting) cycle.surjective cycle.update_convs(2,3,5) pending)
qed

lemma settle_step_fields:
  assumes "cycleCore w c s"
    and "j < length (tasks (cycles s ! c))"
    and "\<not> isSettled (stage (tasks (cycles s ! c) ! j))"
  shows "Set_elems (settle w c j s) = Set_elems (resumeTask w c j s)"
    and "registryLog (settle w c j s) = registryLog (resumeTask w c j s)"
    and "gitLog (settle w c j s) = gitLog (resumeTask w c j s)"
    and "consoleErrors (settle w c j s) = consoleErrors (resumeTask w c j s)"
    and "messages (settle w c j s) =
           messages (resumeTask w c j s) @
             (if outcome (cycles (settle w c j s) ! c) \<noteq> None \<and>
                 updatesFound (cycles (settle w c j s) ! c) > 0 \<and>
                 notifyOnUpdates (config (cycles s ! c))
              then [if autoMerge (config (cycles s ! c))
                    then AutoSyncedAggregate (updatesFound (cycles (settle w c j s) ! c))
                           (Set_elems (settle w c j s))
                    else UpdatesAvailable (updatesFound (cycles (settle w c j s) ! c))
                           (Set_elems (settle w c j s))]
              else [])"
proof -
  from assms(1) have c: "c < length (cycles s)"
    by (simp add: cycleCore_def)
  note sc = settle_core [OF assms(1), of c j] and cy = settle_step_cycles [OF assms]
  show "Set_elems (settle w c j s) = Set_elems (resumeTask w c j s)"
    and "registryLog (settle w c j s) = registryLog (resumeTask w c j s)"
    and "gitLog (settle w c j s) = gitLog (resumeTask w c j s)"
    and "consoleErrors (settle w c j s) = consoleErrors (resumeTask w c j s)"
    using assms(2,3) by (simp_all add: sc afterAll_fields)
  have m: "messages (settle w c j s) =
      (if settledAll (tasks (cycles (resumeTask w c j s) ! c))
       then messages (checkForUpdates_afterAll w c (resumeTask w c j s))
       else messages (resumeTask w c j s))"
    using assms(2,3) by (simp add: sc)
  have se: "Set_elems (settle w c j s) = Set_elems (resumeTask w c j s)"
    using assms(2,3) by (simp add: sc afterAll_fields)
  show "messages (settle w c j s) =
           messages (resumeTask w c j s) @
             (if outcome (cycles (settle w c j s) ! c) \<noteq> None \<and>
                 updatesFound (cycles (settle w c j s) ! c) > 0 \<and>
                 notifyOnUpdates (config (cycles s ! c))
              then [if autoMerge (config (cycles s ! c))
                    then AutoSyncedAggregate (updatesFound (cycles (settle w c j s) ! c))
                           (Set_elems (settle w c j s))
                    else UpdatesAvailable (updatesFound (cycles (settle w c j s) ! c))
                           (Set_elems (settle w c j s))]
              else [])"
    unfolding m se cy using c
    by (simp add: afterAll_fields resumeTask_eq [OF assms(3)])
qed

lemma cycleCore_settle:
  assumes "cycleCore w c s"
  shows "cycleCore w c (settle w k j s)"
proof (cases "k = c \<and> j < length (tasks (cycles s ! c)) \<and>
         \<not> isSettled (stage (tasks (cycles s ! c) ! j))")
  case False
  with assms show ?thesis
    by (simp add: settle_noop)
next
  case True
  let ?cyc = "cycles s ! c"
  let ?t = "tasks ?cyc ! j"
  from True have kc: "k = c" and j: "j < length (tasks ?cyc)" and ns: "\<not> isSettled (stage ?t)"
    by simp_all
  from assms have c: "c < length (cycles s)"
    and ok: "list_all (stageOK w (config ?cyc)) (tasks ?cyc)"
    and others: "\<forall>k<length (cycles s). k \<noteq> c \<longrightarrow> settledAll (tasks (cycles s ! k))"
    by (simp_all add: cycleCore_def)
  have okt: "stageOK w (config ?cyc) ?t"
    using ok j by (simp add: list_all_length)
  note cy = settle_step_cycles [OF assms j ns]
  show ?thesis
    unfolding kc cycleCore_def cy
    using c ok others stageOK_next [OF okt ns]
    by (simp add: list_all_update)
qed

lemma settle_shape:
  assumes "cycleCore w c s"
  shows "length (cycles (settle w k j s)) = length (cycles s)"
    and "config (cycles (settle w k j s) ! c) = config (cycles s ! c)"
    and "map project (tasks (cycles (settle w k j s) ! c)) = map project (tasks (cycles s ! c))"
proof -
  have "length (cycles (settle w k j s)) = length (cycles s) \<and>
        config (cycles (settle w k j s) ! c) = config (cycles s ! c) \<and>
        map project (tasks (cycles (settle w k j s) ! c)) = map project (tasks (cycles s ! c))"
  proof (cases "k = c \<and> j < length (tasks (cycles s ! c)) \<and>
         \<not> isSettled (stage (tasks (cycles s ! c) ! j))")
    case False
    with assms show ?thesis
      by (simp add: settle_noop)
  next
    case True
    from assms have c: "c < length (cycles s)"
      by (simp add: cycleCore_def)
    from True settle_step_cycles [OF assms, of j] c show ?thesis
      by (simp add: map_update_same)
  qed
  then show "length (cycles (settle w k j s)) = length (cycles s)"
    and "config (cycles (settle w k j s) ! c) = config (cycles s ! c)"
    and "map project (tasks (cycles (settle w k j s) ! c)) = map project (tasks (cycles s ! c))"
    by simp_all
qed

subsection \<open>The pending-updates set, the registry, the messages and the git processes\<close>

lemma length_filter_update:
  "j < length xs \<Longrightarrow>
   length (filter P (xs[j := y])) + (if P (xs ! j) then 1 else 0) =
   length (filter P xs) + (if P y then 1 else 0)"
proof (induction xs arbitrary: j)
  case Nil
  then show ?case by simp
next
  case (Cons x xs)
  show ?case
  proof (cases j)
    case 0
    then show ?thesis by simp
  next
    case (Suc i)
    with Cons.prems have "i < length xs" by simp
    from Cons.IH [OF this] Suc show ?thesis by simp
  qed
qed

lemma set_filter_update_new:
  "j < length xs \<Longrightarrow> \<not> P (xs ! j) \<Longrightarrow> P y \<Longrightarrow>
   set (map f (filter P (xs[j := y]))) = insert (f y) (set (map f (filter P xs)))"
proof (induction xs arbitrary: j)
  case Nil
  then show ?case by simp
next
  case (Cons x xs)
  show ?case
  proof (cases j)
    case 0
    with Cons.prems show ?thesis by simp
  next
    case (Suc i)
    with Cons.prems have "i < length xs" "\<not> P (xs ! i)" by simp_all
    from Cons.IH [OF this Cons.prems(3)] Suc show ?thesis
      by (simp add: insert_commute)
  qed
qed

lemma map_filter_update_same:
  "P y = P (xs ! j) \<Longrightarrow> f y = f (xs ! j) \<Longrightarrow>
   map f (filter P (xs[j := y])) = map f (filter P xs)"
proof (induction xs arbitrary: j)
  case Nil
  then show ?case by simp
next
  case (Cons x xs)
  show ?case
  proof (cases j)
    case 0
    with Cons.prems show ?thesis by simp
  next
    case (Suc i)
    with Cons.prems have "P y = P (xs ! i)" "f y = f (xs ! i)" by simp_all
    from Cons.IH [OF this] Suc show ?thesis by simp
  qed
qed

lemma merged_next:
  "stageOK w cfg t \<Longrightarrow> \<not> isSettled (stage t) \<Longrightarrow>
   merged w cfg (t\<lparr>stage := nextStage w cfg t\<rparr>) = (stage t = AwaitPull \<and> pullOk w (project t))"
  by (cases "stage t") (auto simp: stageOK_def nextStage_def hasUpdate_def merged_def)

lemma pendingInv_settle:
  assumes core: "cycleCore w c s" and inv: "pendingInv w c s"
  shows "pendingInv w c (settle w k j s)"
proof (cases "k = c \<and> j < length (tasks (cycles s ! c)) \<and>
         \<not> isSettled (stage (tasks (cycles s ! c) ! j))")
  case False
  with assms show ?thesis
    by (simp add: settle_noop)
next
  case True
  let ?cyc = "cycles s ! c"
  let ?ts = "tasks ?cyc"
  let ?t = "?ts ! j"
  let ?t' = "?t\<lparr>stage := nextStage w (config ?cyc) ?t\<rparr>"
  from True have kc: "k = c" and j: "j < length ?ts" and ns: "\<not> isSettled (stage ?t)"
    by simp_all
  from core have c: "c < length (cycles s)"
    and ok: "list_all (stageOK w (config ?cyc)) ?ts"
    by (simp_all add: cycleCore_def)
  have okt: "stageOK w (config ?cyc) ?t"
    using ok j by (simp add: list_all_length)
  note cy = settle_step_cycles [OF core j ns]
  note se = settle_step_fields(1) [OF core j ns] resumeTask_fields(1) [OF ns]
  note an = added_next [OF okt ns]
  from inv have d: "distinct (Set_elems s)"
    and st: "set (Set_elems s) = set (map (\<lambda>t. name (project t)) (filter (added w) ?ts))"
    and uf: "updatesFound ?cyc = length (filter (added w) ?ts)"
    by (simp_all add: pendingInv_def)
  show ?thesis
  proof (cases "stage ?t = AwaitRevList \<and> revListBehind w (project ?t)")
    case new: True
    then have na: "\<not> added w ?t" and a': "added w ?t'"
      using an by (simp_all add: added_def)
    have l: "length (filter (added w) (?ts[j := ?t'])) = length (filter (added w) ?ts) + 1"
      using length_filter_update [OF j, of "added w" ?t'] na a' by simp
    have s: "set (map (\<lambda>t. name (project t)) (filter (added w) (?ts[j := ?t']))) =
             insert (name (project ?t)) (set (map (\<lambda>t. name (project t)) (filter (added w) ?ts)))"
      using set_filter_update_new [OF j na a', of "\<lambda>t. name (project t)"] by simp
    show ?thesis
      unfolding kc pendingInv_def cy se
      using c new d st uf l s by auto
  next
    case old: False
    then have a': "added w ?t' = added w ?t"
      using an by auto
    have m: "map (\<lambda>t. name (project t)) (filter (added w) (?ts[j := ?t'])) =
             map (\<lambda>t. name (project t)) (filter (added w) ?ts)"
      by (rule map_filter_update_same) (simp_all add: a')
    have l: "length (filter (added w) (?ts[j := ?t'])) = length (filter (added w) ?ts)"
      using arg_cong [OF m, of length] by simp
    show ?thesis
      unfolding kc pendingInv_def cy se
      using c old d st uf l m by auto
  qed
qed

lemma registryInv_settle:
  assumes core: "cycleCore w c s" and inv: "registryInv w c b s"
  shows "registryInv w c b (settle w k j s)"
proof (cases "k = c \<and> j < length (tasks (cycles s ! c)) \<and>
         \<not> isSettled (stage (tasks (cycles s ! c) ! j))")
  case False
  with assms show ?thesis
    by (simp add: settle_noop)
next
  case True
  let ?cyc = "cycles s ! c"
  let ?ts = "tasks ?cyc"
  let ?t = "?ts ! j"
  let ?t' = "?t\<lparr>stage := nextStage w (config ?cyc) ?t\<rparr>"
  from True have kc: "k = c" and j: "j < length ?ts" and ns: "\<not> isSettled (stage ?t)"
    by simp_all
  from core have c: "c < length (cycles s)"
    and ok: "list_all (stageOK w (config ?cyc)) ?ts"
    by (simp_all add: cycleCore_def)
  have okt: "stageOK w (config ?cyc) ?t"
    using ok j by (simp add: list_all_length)
  note cy = settle_step_cycles [OF core j ns]
  note re = settle_step_fields(2) [OF core j ns] resumeTask_fields(2) [OF ns]
  note mn = merged_next [OF okt ns]
  have nm: "\<not> merged w (config ?cyc) ?t"
    using ns by (simp add: merged_def)
  show ?thesis
    unfolding kc registryInv_def
  proof
    fix n
    let ?Q = "\<lambda>t. name (project t) = n \<and> merged w (config ?cyc) t"
    have l: "length (filter ?Q (?ts[j := ?t'])) =
             length (filter ?Q ?ts) + (if ?Q ?t' then 1 else 0)"
      using length_filter_update [OF j, of ?Q ?t'] nm by simp
    from inv have i: "count_list (registryLog s) n =
        count_list (registryLog b) n + length (filter ?Q ?ts)"
      by (simp add: registryInv_def)
    show "count_list (registryLog (settle w c j s)) n =
          count_list (registryLog b) n +
          length (filter (\<lambda>t. name (project t) = n \<and> merged w (config (cycles (settle w c j s) ! c)) t)
                    (tasks (cycles (settle w c j s) ! c)))"
      unfolding cy re using c i l mn by auto
  qed
qed

lemma isIndividual_pullMessage: "isIndividual (pullMessage w p)"
  by (simp add: pullMessage_def split: sum.splits)

lemma pulled_next:
  assumes "stageOK w cfg t" and "\<not> isSettled (stage t)"
  shows "pulled w cfg (t\<lparr>stage := nextStage w cfg t\<rparr>) = (stage t = AwaitPull)"
  using assms
  by (cases "stage t") (auto simp: pulled_def nextStage_def stageOK_def hasUpdate_def)

lemma messagesInv_settle:
  assumes core: "cycleCore w c s" and inv: "messagesInv w c b s"
  shows "messagesInv w c b (settle w k j s)"
proof (cases "k = c \<and> j < length (tasks (cycles s ! c)) \<and>
         \<not> isSettled (stage (tasks (cycles s ! c) ! j))")
  case False
  with assms show ?thesis
    by (simp add: settle_noop)
next
  case True
  let ?cyc = "cycles s ! c"
  let ?ts = "tasks ?cyc"
  let ?t = "?ts ! j"
  let ?t' = "?t\<lparr>stage := nextStage w (config ?cyc) ?t\<rparr>"
  from True have kc: "k = c" and j: "j < length ?ts" and ns: "\<not> isSettled (stage ?t)"
    by simp_all
  from core have c: "c < length (cycles s)"
    and ok: "list_all (stageOK w (config ?cyc)) ?ts"
    and out: "outcome ?cyc = (if settledAll ?ts then Some (Inr ()) else None)"
    by (simp_all add: cycleCore_def)
  have okt: "stageOK w (config ?cyc) ?t"
    using ok j by (simp add: list_all_length)
  from j ns have "\<not> settledAll ?ts"
    by (rule settledAll_update)
  with out have pending: "aggregatePart c s = []"
    by (simp add: aggregatePart_def)
  from inv pending obtain ind where ind: "list_all isIndividual ind"
    "\<not> autoMerge (config ?cyc) \<longrightarrow> ind = []"
    "\<And>m. count_list ind m =
       length (filter (\<lambda>t. pullMessage w (project t) = m \<and> pulled w (config ?cyc) t) ?ts)"
    "messages s = messages b @ ind"
    by (auto simp: messagesInv_def)
  let ?new = "if stage ?t = AwaitPull then [pullMessage w (project ?t)] else []"
  have cfg: "config (cycles (settle w c j s) ! c) = config ?cyc"
    by (rule settle_shape(2) [OF core])
  have ts: "tasks (cycles (settle w c j s) ! c) = ?ts[j := ?t']"
    using c by (simp add: settle_step_cycles [OF core j ns])
  have m: "messages (settle w c j s) = messages s @ ?new @ aggregatePart c (settle w c j s)"
    unfolding aggregatePart_def cfg
    by (simp add: settle_step_fields(5) [OF core j ns] resumeTask_fields(3) [OF ns])
  have n1: "list_all isIndividual (ind @ ?new)"
    using ind(1) by (simp add: isIndividual_pullMessage)
  have n2: "\<not> autoMerge (config ?cyc) \<longrightarrow> ind @ ?new = []"
    using ind(2) okt by (auto simp: stageOK_def)
  have np: "\<not> pulled w (config ?cyc) ?t"
    using ns by (simp add: pulled_def)
  note pn = pulled_next [OF okt ns]
  have n3: "\<forall>m. count_list (ind @ ?new) m =
       length (filter (\<lambda>t. pullMessage w (project t) = m \<and> pulled w (config ?cyc) t)
                 (?ts[j := ?t']))"
  proof
    fix m
    let ?Q = "\<lambda>t. pullMessage w (project t) = m \<and> pulled w (config ?cyc) t"
    have l: "length (filter ?Q (?ts[j := ?t'])) =
             length (filter ?Q ?ts) + (if ?Q ?t' then 1 else 0)"
      using length_filter_update [OF j, of ?Q ?t'] np by simp
    show "count_list (ind @ ?new) m = length (filter ?Q (?ts[j := ?t']))"
      unfolding l using ind(3) [of m] pn by simp
  qed
  show ?thesis
    unfolding kc messagesInv_def cfg ts
    using n1 n2 n3 m ind(4) by (intro exI [of _ "ind @ ?new"]) simp
qed

lemma gitInv_settle:
  assumes core: "cycleCore w c s" and inv: "gitInv c b s"
  shows "gitInv c b (settle w k j s)"
proof (cases "k = c \<and> j < length (tasks (cycles s ! c)) \<and>
         \<not> isSettled (stage (tasks (cycles s ! c) ! j))")
  case False
  with assms show ?thesis
    by (simp add: settle_noop)
next
  case True
  let ?cyc = "cycles s ! c"
  let ?ts = "tasks ?cyc"
  let ?t = "?ts ! j"
  from True have kc: "k = c" and j: "j < length ?ts" and ns: "\<not> isSettled (stage ?t)"
    by simp_all
  from core have ok: "list_all (stageOK w (config ?cyc)) ?ts"
    by (simp add: cycleCore_def)
  have okt: "stageOK w (config ?cyc) ?t"
    using ok j by (simp add: list_all_length)
  have cfg: "config (cycles (settle w c j s) ! c) = config ?cyc"
    by (rule settle_shape(2) [OF core])
  have pr: "map (\<lambda>t. folderPath (project t)) (tasks (cycles (settle w c j s) ! c)) =
            map (\<lambda>t. folderPath (project t)) ?ts"
    using arg_cong [OF settle_shape(3) [OF core, of c j], of "map folderPath"]
    by (simp add: comp_def)
  have mem: "folderPath (project ?t) \<in> set (map (\<lambda>t. folderPath (project t)) ?ts)"
  proof -
    from j have "?t \<in> set ?ts"
      by (rule nth_mem)
    then have "(\<lambda>t. folderPath (project t)) ?t \<in> (\<lambda>t. folderPath (project t)) ` set ?ts"
      by (rule imageI)
    then show ?thesis
      by simp
  qed
  have pull: "nextStage w (config ?cyc) ?t = AwaitPull \<Longrightarrow> autoMerge (config ?cyc)"
    using ns by (cases "stage ?t") (simp_all add: nextStage_def split: if_splits)
  have g: "gitLog (settle w c j s) =
      gitLog s @
        (case nextStage w (config ?cyc) ?t of
           AwaitRevList \<Rightarrow>
             [([''rev-list'', ''HEAD..origin/HEAD'', ''--count''], folderPath (project ?t))]
         | AwaitPull \<Rightarrow> [([''pull'', ''origin''], folderPath (project ?t))]
         | _ \<Rightarrow> [])"
    by (simp add: settle_step_fields(3) [OF core j ns] resumeTask_fields(4) [OF ns])
  show ?thesis
    unfolding kc gitInv_def cfg pr g
    using inv mem pull
    by (cases "nextStage w (config ?cyc) ?t") (auto simp: gitInv_def)
qed

subsection \<open>From the call to the end of the cycle\<close>

lemma checkForUpdates_started:
  assumes "gitProjectsOf w \<noteq> []"
  shows "fst (checkForUpdates w a s) = Suspend ()"
    and "cycles (snd (checkForUpdates w a s)) =
           cycles s @
           [\<lparr>config = getConfig w, updatesFound = 0,
             tasks = map (\<lambda>p. \<lparr>project = p, stage = AwaitFetch\<rparr>) (gitProjectsOf w),
             awaitedBy = a, outcome = None\<rparr>]"
    and "Set_elems (snd (checkForUpdates w a s)) = []"
    and "gitLog (snd (checkForUpdates w a s)) =
           gitLog s @ map (\<lambda>p. ([''fetch'', ''origin''], folderPath p)) (gitProjectsOf w)"
    and "registryLog (snd (checkForUpdates w a s)) = registryLog s"
    and "messages (snd (checkForUpdates w a s)) = messages s"
    and "consoleErrors (snd (checkForUpdates w a s)) = consoleErrors s"
  using assms
  by (simp_all add: checkForUpdates_def Let_def fold_executeGit Set_clear_def Set_elems_def)

lemma cycleInv_started:
  assumes "gitProjectsOf w \<noteq> []" and "idle s"
  shows "cycleInv w (length (cycles s)) (snd (checkForUpdates w a s)) (snd (checkForUpdates w a s))"
proof -
  let ?b = "snd (checkForUpdates w a s)"
  let ?c = "length (cycles s)"
  note st = checkForUpdates_started [OF assms(1), of a s]
  have cyc: "cycles ?b ! ?c =
      \<lparr>config = getConfig w, updatesFound = 0,
       tasks = map (\<lambda>p. \<lparr>project = p, stage = AwaitFetch\<rparr>) (gitProjectsOf w),
       awaitedBy = a, outcome = None\<rparr>"
    by (simp add: st(2))
  have ns: "\<not> settledAll (map (\<lambda>p. \<lparr>project = p, stage = AwaitFetch\<rparr>) (gitProjectsOf w))"
    using assms(1) by (cases "gitProjectsOf w") (simp_all add: settledAll_def)
  have ok: "list_all (stageOK w (getConfig w))
              (map (\<lambda>p. \<lparr>project = p, stage = AwaitFetch\<rparr>) (gitProjectsOf w))"
    by (simp add: list_all_iff stageOK_def)
  have others: "\<forall>k<length (cycles ?b). k \<noteq> ?c \<longrightarrow> settledAll (tasks (cycles ?b ! k))"
    using assms(2) by (auto simp: st(2) idle_def list_all_length nth_append)
  have core: "cycleCore w ?c ?b"
    unfolding cycleCore_def cyc using ns ok others by (simp add: st(2))
  have na: "filter (added w) (map (\<lambda>p. \<lparr>project = p, stage = AwaitFetch\<rparr>) (gitProjectsOf w)) = []"
    by (simp add: filter_empty_conv added_def)
  have pend: "pendingInv w ?c ?b"
    unfolding pendingInv_def cyc by (simp add: st(3) na)
  have nm: "\<And>n. filter (\<lambda>t. name (project t) = n \<and> merged w (getConfig w) t)
              (map (\<lambda>p. \<lparr>project = p, stage = AwaitFetch\<rparr>) (gitProjectsOf w)) = []"
    by (simp add: filter_empty_conv merged_def)
  have reg: "registryInv w ?c ?b ?b"
    unfolding registryInv_def cyc by (simp add: nm)
  have np: "\<And>m. filter (\<lambda>t. pullMessage w (project t) = m \<and> pulled w (getConfig w) t)
              (map (\<lambda>p. \<lparr>project = p, stage = AwaitFetch\<rparr>) (gitProjectsOf w)) = []"
    by (simp add: filter_empty_conv pulled_def)
  have msg: "messagesInv w ?c ?b ?b"
    unfolding messagesInv_def aggregatePart_def cyc by (simp add: np)
  have git: "gitInv ?c ?b ?b"
    by (simp add: gitInv_def)
  from core pend reg msg git show ?thesis
    by (simp add: cycleInv_def)
qed

lemma cycleInv_settle:
  assumes "cycleInv w c b s"
  shows "cycleInv w c b (settle w k j s)"
proof -
  from assms have core: "cycleCore w c s"
    by (simp add: cycleInv_def)
  from assms show ?thesis
    unfolding cycleInv_def
    using cycleCore_settle [OF core, of k j] pendingInv_settle [OF core, of k j]
      registryInv_settle [OF core, of b k j] messagesInv_settle [OF core, of b k j]
      gitInv_settle [OF core, of b k j] settle_shape(2,3) [OF core, of k j]
    by simp
qed

lemma cycleInv_run:
  assumes "list_all isSettle evs" and "cycleInv w c b s"
  shows "cycleInv w c b (run w evs s)"
  using assms
proof (induction evs arbitrary: s)
  case Nil
  then show ?case by simp
next
  case (Cons e evs)
  then obtain k j where e: "e = Settle k j"
    by (cases e) simp_all
  from Cons.prems(2) have "cycleInv w c b (settle w k j s)"
    by (rule cycleInv_settle)
  with Cons.IH [of "settle w k j s"] Cons.prems(1) show ?case
    by (simp add: e)
qed

lemma added_settled:
  "settledAll ts \<Longrightarrow> filter (added w) ts = filter (\<lambda>t. hasUpdate w (project t)) ts"
proof (induction ts)
  case Nil
  then show ?case by simp
next
  case (Cons t ts)
  then have "isSettled (stage t)"
    by (simp add: settledAll_def)
  then have "added w t = hasUpdate w (project t)"
    by (cases "stage t") (simp_all add: added_def)
  with Cons show ?case
    by (simp add: settledAll_def)
qed

lemma merged_settled:
  "settledAll ts \<Longrightarrow>
   filter (\<lambda>t. name (project t) = n \<and> merged w cfg t) ts =
   filter (\<lambda>t. name (project t) = n \<and> hasUpdate w (project t) \<and> autoMerge cfg \<and>
                pullOk w (project t)) ts"
proof (induction ts)
  case Nil
  then show ?case by simp
next
  case (Cons t ts)
  then have "isSettled (stage t)"
    by (simp add: settledAll_def)
  then have "merged w cfg t = (hasUpdate w (project t) \<and> autoMerge cfg \<and> pullOk w (project t))"
    by (simp add: merged_def)
  with Cons show ?case
    by (simp add: settledAll_def)
qed

lemma pulled_settled:
  "settledAll ts \<Longrightarrow>
   length (filter (\<lambda>t. pullMessage w (project t) = m \<and> pulled w cfg t) ts) =
   count_list (map (pullMessage w)
                 (filter (\<lambda>p. hasUpdate w p \<and> autoMerge cfg) (map project ts))) m"
proof (induction ts)
  case Nil
  then show ?case by simp
next
  case (Cons t ts)
  then have "isSettled (stage t)"
    by (simp add: settledAll_def)
  then have "pulled w cfg t = (hasUpdate w (project t) \<and> autoMerge cfg)"
    by (simp add: pulled_def)
  with Cons show ?case
    by (simp add: settledAll_def)
qed

lemma cycle_end:
  assumes ne: "gitProjectsOf w \<noteq> []" and idle: "idle s0"
    and evs: "list_all isSettle evs"
    and fin: "outcome (cycles (run w evs (snd (checkForUpdates w a s0))) ! length (cycles s0)) \<noteq> None"
  shows "outcome (cycles (run w evs (snd (checkForUpdates w a s0))) ! length (cycles s0)) = Some (Inr ())"
    and "distinct (Set_elems (run w evs (snd (checkForUpdates w a s0))))"
    and "set (Set_elems (run w evs (snd (checkForUpdates w a s0)))) =
           set (map name (filter (hasUpdate w) (gitProjectsOf w)))"
    and "updatesFound (cycles (run w evs (snd (checkForUpdates w a s0))) ! length (cycles s0)) =
           length (filter (hasUpdate w) (gitProjectsOf w))"
    and "config (cycles (run w evs (snd (checkForUpdates w a s0))) ! length (cycles s0)) = getConfig w"
    and "count_list (registryLog (run w evs (snd (checkForUpdates w a s0)))) n =
           count_list (registryLog s0) n +
           length (filter (\<lambda>p. name p = n \<and> hasUpdate w p \<and> autoMerge (getConfig w) \<and> pullOk w p)
                     (gitProjectsOf w))"
    and "settledAll (tasks (cycles (run w evs (snd (checkForUpdates w a s0))) ! length (cycles s0)))"
proof -
  let ?b = "snd (checkForUpdates w a s0)"
  let ?c = "length (cycles s0)"
  let ?s = "run w evs ?b"
  let ?ts = "tasks (cycles ?s ! ?c)"
  note st = checkForUpdates_started [OF ne, of a s0]
  have inv: "cycleInv w ?c ?b ?s"
    using evs cycleInv_started [OF ne idle] by (rule cycleInv_run)
  have cfg: "config (cycles ?s ! ?c) = getConfig w"
    using inv by (simp add: cycleInv_def st(2))
  have pr: "map project ?ts = gitProjectsOf w"
    using inv by (simp add: cycleInv_def st(2) comp_def)
  from inv fin have all: "settledAll ?ts" and out: "outcome (cycles ?s ! ?c) = Some (Inr ())"
    by (auto simp: cycleInv_def cycleCore_def split: if_splits)
  have f1: "map (\<lambda>t. name (project t)) (filter (added w) ?ts) =
            map name (filter (hasUpdate w) (gitProjectsOf w))"
    unfolding added_settled [OF all] pr [symmetric] by (simp add: filter_map comp_def)
  have f2: "length (filter (added w) ?ts) = length (filter (hasUpdate w) (gitProjectsOf w))"
    using arg_cong [OF f1, of length] by simp
  have f3: "length (filter (\<lambda>t. name (project t) = n \<and> merged w (getConfig w) t) ?ts) =
            length (filter (\<lambda>p. name p = n \<and> hasUpdate w p \<and> autoMerge (getConfig w) \<and> pullOk w p)
                      (gitProjectsOf w))"
    unfolding merged_settled [OF all] pr [symmetric] by (simp add: filter_map comp_def)
  from out show "outcome (cycles ?s ! ?c) = Some (Inr ())" .
  from all show "settledAll ?ts" .
  from inv show "distinct (Set_elems ?s)"
    by (simp add: cycleInv_def pendingInv_def)
  from inv f1 show "set (Set_elems ?s) = set (map name (filter (hasUpdate w) (gitProjectsOf w)))"
    by (simp add: cycleInv_def pendingInv_def)
  from inv f2 show "updatesFound (cycles ?s ! ?c) = length (filter (hasUpdate w) (gitProjectsOf w))"
    by (simp add: cycleInv_def pendingInv_def)
  from cfg show "config (cycles ?s ! ?c) = getConfig w" .
  from inv have "count_list (registryLog ?s) n =
      count_list (registryLog ?b) n +
      length (filter (\<lambda>t. name (project t) = n \<and> merged w (config (cycles ?s ! ?c)) t) ?ts)"
    by (simp add: cycleInv_def registryInv_def)
  then show "count_list (registryLog ?s) n =
           count_list (registryLog s0) n +
           length (filter (\<lambda>p. name p = n \<and> hasUpdate w p \<and> autoMerge (getConfig w) \<and> pullOk w p)
                     (gitProjectsOf w))"
    by (simp add: cfg f3 st(5))
qed

lemma cycleInv_length:
  assumes "cycleInv w c b s"
  shows "length (cycles (settle w k j s)) = length (cycles s)"
  using assms settle_shape(1) [of w c s k j] by (simp add: cycleInv_def)

lemma run_length:
  assumes "list_all isSettle evs" and "cycleInv w c b s"
  shows "length (cycles (run w evs s)) = length (cycles s)"
  using assms
proof (induction evs arbitrary: s)
  case Nil
  then show ?case by simp
next
  case (Cons e evs)
  then obtain k j where e: "e = Settle k j"
    by (cases e) simp_all
  from Cons.prems(2) have i: "cycleInv w c b (settle w k j s)"
    by (rule cycleInv_settle)
  from Cons.IH [OF _ i] Cons.prems(1) cycleInv_length [OF Cons.prems(2), of k j] show ?case
    by (simp add: e)
qed

lemma cycle_running:
  assumes ne: "gitProjectsOf w \<noteq> []" and idle: "idle s0"
    and evs: "list_all isSettle evs"
  shows "set (Set_elems (run w evs (snd (checkForUpdates w a s0)))) \<subseteq> set (map name (gitProjectsOf w))"
    and "\<forall>g\<in>set (gitLog (run w evs (snd (checkForUpdates w a s0)))).
           g \<in> set (gitLog s0) \<or>
           snd g \<in> set (map folderPath (gitProjectsOf w)) \<and>
           (fst g = [''pull'', ''origin''] \<longrightarrow> autoMerge (getConfig w))"
    and "length (cycles (run w evs (snd (checkForUpdates w a s0)))) = Suc (length (cycles s0))"
    and "map project (tasks (cycles (run w evs (snd (checkForUpdates w a s0))) ! length (cycles s0))) =
           gitProjectsOf w"
    and "\<exists>ind. list_all isIndividual ind \<and> (\<not> autoMerge (getConfig w) \<longrightarrow> ind = []) \<and>
           (\<forall>m. count_list ind m =
              length (filter (\<lambda>t. pullMessage w (project t) = m \<and> pulled w (getConfig w) t)
                        (tasks (cycles (run w evs (snd (checkForUpdates w a s0))) ! length (cycles s0))))) \<and>
           messages (run w evs (snd (checkForUpdates w a s0))) =
             messages s0 @ ind @
             aggregatePart (length (cycles s0)) (run w evs (snd (checkForUpdates w a s0)))"
proof -
  let ?b = "snd (checkForUpdates w a s0)"
  let ?c = "length (cycles s0)"
  let ?s = "run w evs ?b"
  let ?ts = "tasks (cycles ?s ! ?c)"
  note st = checkForUpdates_started [OF ne, of a s0]
  have inv0: "cycleInv w ?c ?b ?b"
    using ne idle by (rule cycleInv_started)
  have inv: "cycleInv w ?c ?b ?s"
    using evs inv0 by (rule cycleInv_run)
  have cfg: "config (cycles ?s ! ?c) = getConfig w"
    using inv by (simp add: cycleInv_def st(2))
  show pr: "map project ?ts = gitProjectsOf w"
    using inv by (simp add: cycleInv_def st(2) comp_def)
  have "set (map (\<lambda>t. name (project t)) (filter (added w) ?ts)) \<subseteq> set (map name (map project ?ts))"
    by auto
  with inv show "set (Set_elems ?s) \<subseteq> set (map name (gitProjectsOf w))"
    by (simp add: cycleInv_def pendingInv_def pr)
  have fp: "map (\<lambda>t. folderPath (project t)) ?ts = map folderPath (gitProjectsOf w)"
    using arg_cong [OF pr, of "map folderPath"] by (simp add: comp_def)
  have gb: "set (gitLog ?b) = set (gitLog s0) \<union>
      (\<lambda>p. ([''fetch'', ''origin''], folderPath p)) ` set (gitProjectsOf w)"
    by (simp add: st(4))
  from inv have "gitInv ?c ?b ?s"
    by (simp add: cycleInv_def)
  then have "\<forall>g\<in>set (gitLog ?s).
        g \<in> set (gitLog ?b) \<or>
        snd g \<in> set (map folderPath (gitProjectsOf w)) \<and>
        (fst g = [''pull'', ''origin''] \<longrightarrow> autoMerge (getConfig w))"
    unfolding gitInv_def cfg fp .
  then show "\<forall>g\<in>set (gitLog ?s).
           g \<in> set (gitLog s0) \<or>
           snd g \<in> set (map folderPath (gitProjectsOf w)) \<and>
           (fst g = [''pull'', ''origin''] \<longrightarrow> autoMerge (getConfig w))"
    unfolding gb by auto
  show "length (cycles ?s) = Suc ?c"
    using run_length [OF evs inv0] by (simp add: st(2))
  from inv have "messagesInv w ?c ?b ?s"
    by (simp add: cycleInv_def)
  then show "\<exists>ind. list_all isIndividual ind \<and> (\<not> autoMerge (getConfig w) \<longrightarrow> ind = []) \<and>
           (\<forall>m. count_list ind m =
              length (filter (\<lambda>t. pullMessage w (project t) = m \<and> pulled w (getConfig w) t) ?ts)) \<and>
           messages ?s = messages s0 @ ind @ aggregatePart ?c ?s"
    unfolding messagesInv_def cfg st(6) .
qed

lemma checkForUpdates_nothing:
  assumes "gitProjectsOf w = []"
  shows "fst (checkForUpdates w a s) = Return ()"
    and "cycles (snd (checkForUpdates w a s)) = cycles s"
    and "Set_elems (snd (checkForUpdates w a s)) = []"
    and "gitLog (snd (checkForUpdates w a s)) = gitLog s"
    and "messages (snd (checkForUpdates w a s)) = messages s"
    and "registryLog (snd (checkForUpdates w a s)) = registryLog s"
  using assms
  by (simp_all add: checkForUpdates_def Let_def Set_clear_def updateStatusBar_def Set_elems_def)

lemma idle_settle:
  assumes "idle s"
  shows "settle w k j s = s"
proof -
  have "\<not> (k < length (cycles s) \<and> j < length (tasks (cycles s ! k)) \<and>
           \<not> isSettled (stage (tasks (cycles s ! k) ! j)))"
  proof
    assume a: "k < length (cycles s) \<and> j < length (tasks (cycles s ! k)) \<and>
           \<not> isSettled (stage (tasks (cycles s ! k) ! j))"
    with assms have "settledAll (tasks (cycles s ! k))"
      by (simp add: idle_def list_all_length)
    with a show False
      using settledAll_update by blast
  qed
  then show ?thesis
    by (simp only: settle_def if_False)
qed

lemma idle_run:
  assumes "idle s" and "list_all isSettle evs"
  shows "run w evs s = s"
  using assms
proof (induction evs)
  case Nil
  then show ?case by simp
next
  case (Cons e evs)
  then obtain k j where e: "e = Settle k j"
    by (cases e) simp_all
  with Cons show ?case
    by (simp add: idle_settle)
qed

lemma cycle_nothing:
  assumes "gitProjectsOf w = []" and "idle s0" and "list_all isSettle evs"
  shows "run w evs (snd (checkForUpdates w a s0)) = snd (checkForUpdates w a s0)"
proof -
  have "idle (snd (checkForUpdates w a s0))"
    using assms(2) by (simp add: idle_def checkForUpdates_nothing(2) [OF assms(1)])
  then show ?thesis
    using assms(3) by (rule idle_run)
qed


lemma count_unique_name:
  "distinct (map f ps) \<Longrightarrow> p \<in> set ps \<Longrightarrow> P p \<Longrightarrow>
   length (filter (\<lambda>q. f q = f p \<and> P q) ps) = 1"
proof (induction ps)
  case Nil
  then show ?case by simp
next
  case (Cons q ps)
  show ?case
  proof (cases "q = p")
    case True
    with Cons.prems have "f p \<notin> f ` set ps"
      by simp
    then have "\<forall>r\<in>set ps. f r \<noteq> f p"
      by (metis imageI)
    then have "filter (\<lambda>q. f q = f p \<and> P q) ps = []"
      by (simp add: filter_empty_conv)
    with True Cons.prems show ?thesis
      by simp
  next
    case False
    with Cons.prems have "p \<in> set ps" "f q \<noteq> f p" "distinct (map f ps)"
      by auto
    with Cons.IH Cons.prems(3) show ?thesis
      by simp
  qed
qed

subsection \<open>The example worlds\<close>

lemmas world_defs =
  gitProjectsOf_def fetchOk_def revListBehind_def hasUpdate_def pullOk_def
  parseInt_def trim_def isWhiteSpace_def isDigit_def digitsValue_def

lemma exampleWorld_facts:
  "gitProjectsOf (exampleWorld m ''0'' r) = [projectA, projectB]"
  "hasUpdate (exampleWorld m ''0'' r) projectA"
  "\<not> hasUpdate (exampleWorld m ''0'' r) projectB"
  "getConfig (exampleWorld m b r) =
     \<lparr>enabled = True, intervalMinutes = 30, autoMerge = m, notifyOnUpdates = True,
      runOnStartup = False\<rparr>"
  "pullOk (exampleWorld m b (Inr out)) p"
  "idle newAutoSyncService"
  "cycles newAutoSyncService = []"
  "messages newAutoSyncService = []"
  "gitLog newAutoSyncService = []"
  "registryLog newAutoSyncService = []"
  by (simp_all add: example_defs world_defs idle_def)

lemma stateAfterMerge_fields:
  "outcome (cycles stateAfterMerge ! 0) = Some (Inr ())"
  "Set_elems stateAfterMerge = [''A'']"
  "messages stateAfterMerge = [AutoSynced ''A'', AutoSyncedAggregate 1 [''A'']]"
  "registryLog stateAfterMerge = [''A'']"
  by (simp_all add: stateAfterMerge_def mergeSchedule_def example_defs model_defs)

lemma stateAfterMergeBoth_fields:
  "outcome (cycles stateAfterMergeBoth ! 0) = Some (Inr ())"
  "Set_elems stateAfterMergeBoth = [''A'', ''B'']"
  "messages stateAfterMergeBoth =
     [AutoSynced ''A'', AutoSynced ''B'', AutoSyncedAggregate 2 [''A'', ''B'']]"
  by (simp_all add: stateAfterMergeBoth_def mergeBothSchedule_def example_defs model_defs)


lemma not_eligible:
  assumes "p \<in> set (getProjects w)"
    and "\<not> (projectEnabled p \<and> existsGit w (folderPath p))"
    and "distinct (map f (getProjects w))"
  shows "f p \<notin> set (map f (gitProjectsOf w))"
proof
  assume "f p \<in> set (map f (gitProjectsOf w))"
  then obtain q where q: "q \<in> set (gitProjectsOf w)" "f q = f p"
    by auto
  then have "q \<in> set (getProjects w)"
    by (simp add: gitProjectsOf_def)
  with assms(1,3) q(2) have "q = p"
    by (meson distinct_map inj_onD)
  with q(1) assms(2) show False
    by (simp add: gitProjectsOf_def)
qed

subsection \<open>Failures\<close>

lemma settledFacts_mono:
  assumes "settledFacts w cfg s p"
    and "set (consoleErrors s) \<subseteq> set (consoleErrors s')"
    and "set (messages s) \<subseteq> set (messages s')"
  shows "settledFacts w cfg s' p"
  using assms unfolding settledFacts_def by blast

lemma settledFacts_new:
  assumes "stageOK w cfg t" and "\<not> isSettled (stage t)"
    and "isSettled (nextStage w cfg t)"
    and "set (stepErrors w t) \<subseteq> set (consoleErrors s')"
    and "stage t = AwaitPull \<longrightarrow> pullMessage w (project t) \<in> set (messages s')"
  shows "settledFacts w cfg s' (project t)"
proof (cases "stage t")
  case AwaitFetch
  with assms(3) have nf: "\<not> fetchOk w (project t)"
    by (simp add: nextStage_def split: if_splits)
  then obtain e where e: "execFileGit w [''fetch'', ''origin''] (folderPath (project t)) = Inl e"
    by (auto simp: fetchOk_def split: sum.splits)
  with assms(4) AwaitFetch have "ErrorCheckingForUpdates e \<in> set (consoleErrors s')"
    by (simp add: stepErrors_def)
  with e nf show ?thesis
    by (simp add: settledFacts_def checkFailure_def hasUpdate_def)
next
  case AwaitRevList
  with assms(1) have f: "fetchOk w (project t)"
    by (simp add: stageOK_def)
  from AwaitRevList assms(3) have nm: "\<not> (revListBehind w (project t) \<and> autoMerge cfg)"
    by (simp add: nextStage_def split: if_splits)
  have 1: "\<forall>e. checkFailure w (project t) = Some e \<longrightarrow>
           ErrorCheckingForUpdates e \<in> set (consoleErrors s')"
    using f assms(4) AwaitRevList
    by (auto simp: checkFailure_def fetchOk_def stepErrors_def split: sum.splits)
  from 1 nm show ?thesis
    by (auto simp: settledFacts_def hasUpdate_def)
next
  case AwaitPull
  with assms(1) have h: "hasUpdate w (project t)"
    by (simp add: stageOK_def)
  then have nf: "checkFailure w (project t) = None"
    by (auto simp: hasUpdate_def fetchOk_def revListBehind_def checkFailure_def split: sum.splits)
  have 2: "\<forall>e. execFileGit w [''pull'', ''origin''] (folderPath (project t)) = Inl e \<longrightarrow>
           AutoSyncFailed (name (project t)) e \<in> set (messages s') \<and>
           FailedToPull (name (project t)) e \<in> set (consoleErrors s')"
    using assms(4,5) AwaitPull by (auto simp: stepErrors_def pullMessage_def)
  from nf 2 show ?thesis
    by (simp add: settledFacts_def)
next
  case (Settled r)
  with assms(2) show ?thesis
    by simp
qed

lemma errorsInv_settle:
  assumes core: "cycleCore w c s" and inv: "errorsInv w c s"
  shows "errorsInv w c (settle w k j s)"
proof (cases "k = c \<and> j < length (tasks (cycles s ! c)) \<and>
         \<not> isSettled (stage (tasks (cycles s ! c) ! j))")
  case False
  with assms show ?thesis
    by (simp add: settle_noop)
next
  case True
  let ?cyc = "cycles s ! c"
  let ?ts = "tasks ?cyc"
  let ?t = "?ts ! j"
  let ?t' = "?t\<lparr>stage := nextStage w (config ?cyc) ?t\<rparr>"
  let ?s' = "settle w c j s"
  from True have kc: "k = c" and j: "j < length ?ts" and ns: "\<not> isSettled (stage ?t)"
    by simp_all
  from core have c: "c < length (cycles s)"
    and ok: "list_all (stageOK w (config ?cyc)) ?ts"
    by (simp_all add: cycleCore_def)
  have okt: "stageOK w (config ?cyc) ?t"
    using ok j by (simp add: list_all_length)
  have cfg: "config (cycles ?s' ! c) = config ?cyc"
    by (rule settle_shape(2) [OF core])
  have ts': "tasks (cycles ?s' ! c) = ?ts[j := ?t']"
    using c by (simp add: settle_step_cycles [OF core j ns])
  have ce: "consoleErrors ?s' = consoleErrors s @ stepErrors w ?t"
    by (simp add: settle_step_fields(4) [OF core j ns] resumeTask_fields(5) [OF ns])
  have me: "\<exists>rest. messages ?s' =
      messages s @ (if stage ?t = AwaitPull then [pullMessage w (project ?t)] else []) @ rest"
    by (simp add: settle_step_fields(5) [OF core j ns] resumeTask_fields(3) [OF ns])
  from ce have m1: "set (consoleErrors s) \<subseteq> set (consoleErrors ?s')"
    and n1: "set (stepErrors w ?t) \<subseteq> set (consoleErrors ?s')"
    by simp_all
  from me have m2: "set (messages s) \<subseteq> set (messages ?s')"
    and n2: "stage ?t = AwaitPull \<longrightarrow> pullMessage w (project ?t) \<in> set (messages ?s')"
    by auto
  show ?thesis
    unfolding kc errorsInv_def cfg ts'
  proof (intro ballI impI)
    fix u
    assume u: "u \<in> set (?ts[j := ?t'])" and su: "isSettled (stage u)"
    from u have "u = ?t' \<or> u \<in> set ?ts"
      by (meson in_set_conv_nth insertE set_update_subset_insert subsetD)
    then show "settledFacts w (config ?cyc) ?s' (project u)"
    proof
      assume e: "u = ?t'"
      with su have "isSettled (nextStage w (config ?cyc) ?t)"
        by simp
      from settledFacts_new [OF okt ns this n1 n2] e show ?thesis
        by simp
    next
      assume "u \<in> set ?ts"
      with inv su have "settledFacts w (config ?cyc) s (project u)"
        by (simp add: errorsInv_def)
      then show ?thesis
        using m1 m2 by (rule settledFacts_mono)
    qed
  qed
qed

lemma run_core_errors:
  assumes "list_all isSettle evs" and "cycleCore w c s" and "errorsInv w c s"
  shows "cycleCore w c (run w evs s) \<and> errorsInv w c (run w evs s)"
  using assms
proof (induction evs arbitrary: s)
  case Nil
  then show ?case by simp
next
  case (Cons e evs)
  then obtain k j where e: "e = Settle k j"
    by (cases e) simp_all
  from Cons.prems(2,3) have "cycleCore w c (settle w k j s)" "errorsInv w c (settle w k j s)"
    by (simp_all add: cycleCore_settle errorsInv_settle)
  with Cons.IH [of "settle w k j s"] Cons.prems(1) show ?case
    by (simp add: e)
qed

subsection \<open>Every cycle can be run to its end\<close>

lemma run_append: "run w (xs @ ys) s = run w ys (run w xs s)"
  by (induction xs arbitrary: s) simp_all

lemma rank_next:
  "\<not> isSettled (stage t) \<Longrightarrow> rank (stage t) < rank (nextStage w cfg t)"
  by (cases "stage t") (simp_all add: nextStage_def)

lemma rank_settled: "isSettled st \<Longrightarrow> rank st = 3"
  by (cases st) simp_all

lemma passInv_settle:
  assumes "passInv w c n k m s" and "m < n"
  shows "passInv w c n k (Suc m) (settle w c m s)"
proof -
  let ?ts = "tasks (cycles s ! c)"
  from assms(1) have core: "cycleCore w c s" and len: "length ?ts = n"
    and rk: "\<forall>j<n. (if j < m then min 3 (k + 1) else k) \<le> rank (stage (?ts ! j))"
    by (simp_all add: passInv_def)
  from core have c: "c < length (cycles s)"
    by (simp add: cycleCore_def)
  have core': "cycleCore w c (settle w c m s)"
    using core by (rule cycleCore_settle)
  show ?thesis
  proof (cases "isSettled (stage (?ts ! m))")
    case True
    then have e: "settle w c m s = s"
      using core by (simp add: settle_noop)
    have "\<forall>j<n. (if j < Suc m then min 3 (k + 1) else k) \<le> rank (stage (?ts ! j))"
    proof (intro allI impI)
      fix j assume j: "j < n"
      show "(if j < Suc m then min 3 (k + 1) else k) \<le> rank (stage (?ts ! j))"
      proof (cases "j = m")
        case True
        with \<open>isSettled (stage (?ts ! m))\<close> show ?thesis
          by (simp add: rank_settled)
      next
        case False
        with rk j show ?thesis
          by (auto simp: less_Suc_eq)
      qed
    qed
    with core len show ?thesis
      by (simp add: passInv_def e)
  next
    case False
    from assms(2) len have m: "m < length ?ts"
      by simp
    let ?t' = "(?ts ! m)\<lparr>stage := nextStage w (config (cycles s ! c)) (?ts ! m)\<rparr>"
    have ts': "tasks (cycles (settle w c m s) ! c) = ?ts[m := ?t']"
      using c by (simp add: settle_step_cycles [OF core m False])
    have km: "k \<le> rank (stage (?ts ! m))"
      using rk assms(2) by auto
    have new: "min 3 (k + 1) \<le> rank (stage ?t')"
      using rank_next [OF False, of w "config (cycles s ! c)"] km by simp
    have "\<forall>j<n. (if j < Suc m then min 3 (k + 1) else k) \<le> rank (stage ((?ts[m := ?t']) ! j))"
    proof (intro allI impI)
      fix j assume j: "j < n"
      show "(if j < Suc m then min 3 (k + 1) else k) \<le> rank (stage ((?ts[m := ?t']) ! j))"
      proof (cases "j = m")
        case True
        with new m show ?thesis
          by simp
      next
        case False
        with rk j show ?thesis
          by (auto simp: less_Suc_eq)
      qed
    qed
    with core' len show ?thesis
      by (simp add: passInv_def ts')
  qed
qed

lemma passInv_prefix:
  assumes "passInv w c n k 0 s" and "m \<le> n"
  shows "passInv w c n k m (run w (map (Settle c) [0..<m]) s)"
  using assms(2)
proof (induction m)
  case 0
  with assms(1) show ?case by simp
next
  case (Suc m)
  then have "passInv w c n k m (run w (map (Settle c) [0..<m]) s)" and "m < n"
    by simp_all
  then have "passInv w c n k (Suc m) (settle w c m (run w (map (Settle c) [0..<m]) s))"
    by (rule passInv_settle)
  then show ?case
    by (simp add: run_append)
qed

lemma passInv_pass:
  assumes "passInv w c n k 0 s"
  shows "passInv w c n (min 3 (k + 1)) 0 (run w (map (Settle c) [0..<n]) s)"
proof -
  have "passInv w c n k n (run w (map (Settle c) [0..<n]) s)"
    using assms by (rule passInv_prefix) simp
  then show ?thesis
    by (simp add: passInv_def)
qed

lemma roundRobin_settles:
  assumes "cycleCore w c s" and "length (tasks (cycles s ! c)) = n"
  shows "cycleCore w c (run w (roundRobin c n) s) \<and>
         outcome (cycles (run w (roundRobin c n) s) ! c) = Some (Inr ())"
proof -
  let ?p = "map (Settle c) [0..<n]"
  have 0: "passInv w c n 0 0 s"
    using assms by (simp add: passInv_def)
  have 1: "passInv w c n 1 0 (run w ?p s)"
    using passInv_pass [OF 0] by simp
  have 2: "passInv w c n 2 0 (run w ?p (run w ?p s))"
    using passInv_pass [OF 1] by (simp add: numeral_2_eq_2)
  have 3: "passInv w c n 3 0 (run w ?p (run w ?p (run w ?p s)))"
    using passInv_pass [OF 2] by (simp add: numeral_3_eq_3 numeral_2_eq_2)
  have r: "run w (roundRobin c n) s = run w ?p (run w ?p (run w ?p s))"
    by (simp add: roundRobin_def numeral_3_eq_3 run_append)
  let ?s = "run w (roundRobin c n) s"
  from 3 have core: "cycleCore w c ?s" and len: "length (tasks (cycles ?s ! c)) = n"
    and rk: "\<forall>j<n. 3 \<le> rank (stage (tasks (cycles ?s ! c) ! j))"
    by (simp_all add: passInv_def r)
  have "settledAll (tasks (cycles ?s ! c))"
    unfolding settledAll_def list_all_length
  proof (intro allI impI)
    fix j assume "j < length (tasks (cycles ?s ! c))"
    with rk len have "3 \<le> rank (stage (tasks (cycles ?s ! c) ! j))"
      by simp
    then show "isSettled (stage (tasks (cycles ?s ! c) ! j))"
      by (cases "stage (tasks (cycles ?s ! c) ! j)") simp_all
  qed
  with core show ?thesis
    by (simp add: cycleCore_def)
qed

lemma failingWorld_facts:
  "gitProjectsOf failingWorld = [projectA, projectB]"
  "hasUpdate failingWorld projectA"
  "autoMerge (getConfig failingWorld)"
  "execFileGit failingWorld [''pull'', ''origin''] (folderPath projectA) = Inl ''CONFLICT''"
  "checkFailure failingWorld projectB = Some ''unreachable''"
  by (simp_all add: failingWorld_def example_defs world_defs checkFailure_def)

lemma stateAfterFailures_fields:
  "outcome (cycles stateAfterFailures ! 0) = Some (Inr ())"
  "updatesFound (cycles stateAfterFailures ! 0) = 1"
  "Set_elems stateAfterFailures = [''A'']"
  by (simp_all add: stateAfterFailures_def failingWorld_def mergeSchedule_def example_defs model_defs)

lemma errorsInv_started:
  assumes "gitProjectsOf w \<noteq> []"
  shows "errorsInv w (length (cycles s)) (snd (checkForUpdates w a s))"
  unfolding errorsInv_def
  by (auto simp: checkForUpdates_started(2) [OF assms])

lemma checkFailure_no_update:
  "checkFailure w p = Some e \<Longrightarrow> \<not> hasUpdate w p"
  by (auto simp: checkFailure_def hasUpdate_def fetchOk_def revListBehind_def split: sum.splits)

subsection \<open>No method but getProjectsWithUpdates() allocates\<close>

lemma allocation_frame [simp]:
  "projectsWithUpdates (Set_clear s) = projectsWithUpdates s"
  "nextRef (Set_clear s) = nextRef s"
  "projectsWithUpdates (updateStatusBar w s) = projectsWithUpdates s"
  "nextRef (updateStatusBar w s) = nextRef s"
  "projectsWithUpdates (notifyUpdatesAvailable n m s) = projectsWithUpdates s"
  "nextRef (notifyUpdatesAvailable n m s) = nextRef s"
  "projectsWithUpdates (start_armTimer w cfg s) = projectsWithUpdates s"
  "nextRef (start_armTimer w cfg s) = nextRef s"
  "projectsWithUpdates (resumeAwaiter w a r s) = projectsWithUpdates s"
  "nextRef (resumeAwaiter w a r s) = nextRef s"
  "projectsWithUpdates (stop s) = projectsWithUpdates s"
  "nextRef (stop s) = nextRef s"
  by (simp_all add: Set_clear_def updateStatusBar_def notifyUpdatesAvailable_def
      start_armTimer_def resumeAwaiter_def stop_def Let_def
      split: awaiter.splits sum.splits option.splits)

lemma checkForUpdates_allocation:
  "projectsWithUpdates (snd (checkForUpdates w a s)) = projectsWithUpdates s"
  "nextRef (snd (checkForUpdates w a s)) = nextRef s"
  by (simp_all add: checkForUpdates_def Let_def fold_executeGit)

lemma start_allocation:
  "projectsWithUpdates (snd (start w s)) = projectsWithUpdates s"
  "nextRef (snd (start w s)) = nextRef s"
  by (simp_all add: start_def Let_def checkForUpdates_allocation
      split: prod.splits completion.splits)
    (metis checkForUpdates_allocation snd_conv)+

lemma afterAll_allocation:
  "projectsWithUpdates (checkForUpdates_afterAll w c s) = projectsWithUpdates s"
  "nextRef (checkForUpdates_afterAll w c s) = nextRef s"
  by (simp_all add: checkForUpdates_afterAll_def Let_def)

lemma awaitPromiseAll_allocation:
  "projectsWithUpdates (awaitPromiseAll w c s) = projectsWithUpdates s"
  "nextRef (awaitPromiseAll w c s) = nextRef s"
  by (cases rule: awaitPromiseAll_cases [of w c s]; simp add: afterAll_allocation)+

lemma settle_allocation:
  "projectsWithUpdates (settle w c i s) = projectsWithUpdates s"
  "nextRef (settle w c i s) = nextRef s"
proof -
  have "projectsWithUpdates (settle w c i s) = projectsWithUpdates s \<and>
        nextRef (settle w c i s) = nextRef s"
  proof (cases "c < length (cycles s) \<and> i < length (tasks (cycles s ! c)) \<and>
         \<not> isSettled (stage (tasks (cycles s ! c) ! i))")
    case False
    then have "settle w c i s = s"
      by (simp only: settle_def if_False)
    then show ?thesis by simp
  next
    case True
    then have ns: "\<not> isSettled (stage (tasks (cycles s ! c) ! i))"
      by simp
    from True have "settle w c i s = awaitPromiseAll w c (resumeTask w c i s)"
      by (simp add: settle_def)
    then show ?thesis
      by (simp add: awaitPromiseAll_allocation resumeTask_eq [OF ns]
          lambda_resume_unchanged(6,7) [OF ns])
  qed
  then show "projectsWithUpdates (settle w c i s) = projectsWithUpdates s"
    and "nextRef (settle w c i s) = nextRef s"
    by simp_all
qed

lemma resumeStart_allocation:
  "projectsWithUpdates (resumeStart w s) = projectsWithUpdates s"
  "nextRef (resumeStart w s) = nextRef s"
  by (simp_all add: resumeStart_def split: list.splits)

lemma step_allocation:
  "projectsWithUpdates (step w e s) = projectsWithUpdates s \<and> nextRef (step w e s) = nextRef s"
  by (cases e)
    (simp_all add: start_allocation checkForUpdates_allocation settle_allocation
      resumeStart_allocation)

lemma run_allocation:
  "projectsWithUpdates (run w evs s) = projectsWithUpdates s \<and> nextRef (run w evs s) = nextRef s"
  by (induction evs arbitrary: s) (simp_all add: step_allocation)

lemma reachable_Set_allocated:
  "projectsWithUpdates (run w evs newAutoSyncService) < nextRef (run w evs newAutoSyncService)"
  by (simp add: run_allocation) (simp add: newAutoSyncService_def)

subsection \<open>stop()\<close>

text \<open>
  C4, as the code has it: after \<open>stop()\<close> the handle \<open>intervalId\<close> is cleared, the timer it
  named is no longer armed (a tick of it changes nothing) and the status bar item is
  hidden; the pending-updates set and \<open>lastCheckTime\<close> are what they were before the call.
\<close>

theorem stop_keeps_pending_and_lastCheckTime:
  "intervalId (stop s) = None \<and>
   \<not> statusBarVisible (stop s) \<and>
   (\<forall>h. intervalId s = Some h \<longrightarrow>
      h \<notin> fst ` set (timers (stop s)) \<and> step w (TimerTick h) (stop s) = stop s) \<and>
   Set_elems (stop s) = Set_elems s \<and>
   lastCheckTime (stop s) = lastCheckTime s"
  by (auto simp: stop_def Set_elems_def split: option.splits)

theorem stop_keeps_pending_and_lastCheckTime_witness:
  "intervalId stateAfterCycle = Some 0 \<and>
   intervalId (stop stateAfterCycle) = None \<and>
   0 \<notin> fst ` set (timers (stop stateAfterCycle)) \<and>
   Set_elems (stop stateAfterCycle) = [''A''] \<and>
   lastCheckTime (stop stateAfterCycle) = Some 1700000000"
proof -
  have i: "intervalId stateAfterCycle = Some 0"
    by (rule stateAfterCycle_fields)
  from stop_keeps_pending_and_lastCheckTime [of stateAfterCycle "exampleWorld False ''0'' (Inr [])"] i
  have "intervalId (stop stateAfterCycle) = None"
    and "0 \<notin> fst ` set (timers (stop stateAfterCycle))"
    and "Set_elems (stop stateAfterCycle) = Set_elems stateAfterCycle"
    and "lastCheckTime (stop stateAfterCycle) = lastCheckTime stateAfterCycle"
    by blast+
  with i show ?thesis
    by (simp add: stateAfterCycle_fields)
qed

text \<open>
  C4 as the specification states it fails: \<open>stop()\<close> after a cycle that found A behind
  leaves A pending and \<open>lastCheckTime\<close> set.
\<close>

theorem stop_resets_state_counterexample:
  "\<not> (Set_elems (stop stateAfterCycle) = [] \<and> lastCheckTime (stop stateAfterCycle) = None)"
  by (simp add: stateAfterCycle_def example_defs model_defs)

subsection \<open>getProjectsWithUpdates()\<close>

text \<open>
  C10: \<open>getProjectsWithUpdates()\<close> is a pure read. In every state whose Set is allocated
  (every state the event loop reaches from the constructor is, by
  \<open>reachable_Set_allocated\<close>, and the call itself keeps it so), it returns the reference
  of a new array, different from the Set's, that holds the elements of the
  pending-updates set; every other object of the heap and every field of the service is
  unchanged, no cycle is started and no git process spawned; and whatever is written
  into the returned array afterwards, the pending-updates set keeps its elements.
\<close>

theorem getProjectsWithUpdates_pure_read:
  assumes "projectsWithUpdates s < nextRef s"
    and "getProjectsWithUpdates s = (r, s')"
  shows "r \<noteq> projectsWithUpdates s \<and>
         heap s' r = Some (ArrayObject (Set_elems s)) \<and>
         (\<forall>a. a \<noteq> r \<longrightarrow> heap s' a = heap s a) \<and>
         s'\<lparr>heap := heap s, nextRef := nextRef s\<rparr> = s \<and>
         cycles s' = cycles s \<and> gitLog s' = gitLog s \<and>
         Set_elems s' = Set_elems s \<and>
         (\<forall>ys. Set_elems (s'\<lparr>heap := (heap s')(r \<mapsto> ArrayObject ys)\<rparr>) = Set_elems s)"
  using assms by (auto simp: getProjectsWithUpdates_def Set_elems_def)

theorem getProjectsWithUpdates_pure_read_witness:
  "projectsWithUpdates stateAfterCycle < nextRef stateAfterCycle \<and>
   fst (getProjectsWithUpdates stateAfterCycle) = 1 \<and>
   heap (snd (getProjectsWithUpdates stateAfterCycle)) 1 = Some (ArrayObject [''A'']) \<and>
   Set_elems ((snd (getProjectsWithUpdates stateAfterCycle))
       \<lparr>heap := (heap (snd (getProjectsWithUpdates stateAfterCycle)))(1 \<mapsto> ArrayObject [])\<rparr>) = [''A'']"
proof -
  have a: "projectsWithUpdates stateAfterCycle < nextRef stateAfterCycle"
    by (rule stateAfterCycle_fields)
  have r: "fst (getProjectsWithUpdates stateAfterCycle) = 1"
    by (rule stateAfterCycle_fields)
  then have g: "getProjectsWithUpdates stateAfterCycle = (1, snd (getProjectsWithUpdates stateAfterCycle))"
    by (metis prod.collapse)
  from getProjectsWithUpdates_pure_read [OF a g]
  have "heap (snd (getProjectsWithUpdates stateAfterCycle)) 1 = Some (ArrayObject (Set_elems stateAfterCycle))"
    and "\<forall>ys. Set_elems ((snd (getProjectsWithUpdates stateAfterCycle))
       \<lparr>heap := (heap (snd (getProjectsWithUpdates stateAfterCycle)))(1 \<mapsto> ArrayObject ys)\<rparr>) = Set_elems stateAfterCycle"
    by blast+
  with a r show ?thesis
    by (simp add: stateAfterCycle_fields)
qed

subsection \<open>start()\<close>




subsection \<open>checkForUpdates() while a cycle is in flight\<close>

text \<open>
  C1, as the code has it: \<open>checkForUpdates()\<close> has no re-entry guard. Whenever there is a
  project to check, the second of two calls in a row is suspended at its own
  \<open>Promise.all\<close> like the first: each call spawns one git fetch for every eligible project
  and adds a pending cycle of its own, whatever cycles were in flight before.
\<close>

theorem checkForUpdates_twice_starts_two_cycles:
  assumes "gitProjectsOf w \<noteq> []"
  shows "fst (checkForUpdates w Detached (snd (checkForUpdates w Detached s))) = Suspend () \<and>
         gitLog (run w [Call_checkForUpdates, Call_checkForUpdates] s) =
           gitLog s @ map (\<lambda>p. ([''fetch'', ''origin''], folderPath p)) (gitProjectsOf w)
                    @ map (\<lambda>p. ([''fetch'', ''origin''], folderPath p)) (gitProjectsOf w) \<and>
         cycles (run w [Call_checkForUpdates, Call_checkForUpdates] s) =
           cycles s @
           replicate 2 \<lparr>config = getConfig w, updatesFound = 0,
                        tasks = map (\<lambda>p. \<lparr>project = p, stage = AwaitFetch\<rparr>) (gitProjectsOf w),
                        awaitedBy = Detached, outcome = None\<rparr>"
  using assms
  by (simp add: checkForUpdates_def Let_def fold_executeGit Set_clear_def numeral_2_eq_2)

theorem checkForUpdates_twice_starts_two_cycles_witness:
  "gitProjectsOf (exampleWorld True ''0'' (Inr [])) \<noteq> [] \<and>
   gitLog (run (exampleWorld True ''0'' (Inr [])) [Call_checkForUpdates, Call_checkForUpdates]
             newAutoSyncService) =
     [([''fetch'', ''origin''], ''/ws/.contexts/A''), ([''fetch'', ''origin''], ''/ws/.contexts/B''),
      ([''fetch'', ''origin''], ''/ws/.contexts/A''), ([''fetch'', ''origin''], ''/ws/.contexts/B'')]"
proof -
  let ?w = "exampleWorld True ''0'' (Inr [])"
  have g: "gitProjectsOf ?w = [projectA, projectB]"
    by (simp add: example_defs gitProjectsOf_def)
  then have ne: "gitProjectsOf ?w \<noteq> []"
    by simp
  from checkForUpdates_twice_starts_two_cycles [OF ne, of newAutoSyncService]
  have "gitLog (run ?w [Call_checkForUpdates, Call_checkForUpdates] newAutoSyncService) =
          gitLog newAutoSyncService @ map (\<lambda>p. ([''fetch'', ''origin''], folderPath p)) (gitProjectsOf ?w)
                    @ map (\<lambda>p. ([''fetch'', ''origin''], folderPath p)) (gitProjectsOf ?w)"
    by blast
  with ne show ?thesis
    by (simp add: g projectA_def projectB_def newAutoSyncService_def)
qed

text \<open>
  C1 as the specification states it fails: with the first call still pending, the
  second call does not return at once; there are two cycles in flight, and the folder
  of A has seen two fetches.
\<close>

theorem checkForUpdates_reentry_counterexample:
  "outcome (cycles (snd (checkForUpdates (exampleWorld True ''0'' (Inr [])) Detached
                           newAutoSyncService)) ! 0) = None \<and>
   fst (checkForUpdates (exampleWorld True ''0'' (Inr [])) Detached
          (snd (checkForUpdates (exampleWorld True ''0'' (Inr [])) Detached
                  newAutoSyncService))) = Suspend () \<and>
   length (cycles (run (exampleWorld True ''0'' (Inr []))
                     [Call_checkForUpdates, Call_checkForUpdates] newAutoSyncService)) = 2 \<and>
   count_list (gitLog (run (exampleWorld True ''0'' (Inr []))
                         [Call_checkForUpdates, Call_checkForUpdates] newAutoSyncService))
     ([''fetch'', ''origin''], ''/ws/.contexts/A'') = 2"
  by (simp add: example_defs model_defs)

subsection \<open>stop() while a cycle is in flight\<close>

text \<open>
  C3, as the code has it: \<open>stop()\<close> does not discard a cycle in flight. However the
  tasks in flight settle after \<open>stop()\<close> (and whenever a queued \<open>start()\<close> is resumed
  in between), the pending-updates set, the cycles, the messages shown, the registry calls
  and the git processes end up exactly as they would have without the \<open>stop()\<close>. What
  \<open>stop()\<close> does is cancel the timer: when no \<open>start()\<close> is still waiting, neither in
  the queue nor for a cycle that is in flight, the timer handle stays cleared. Cycles that
  have ended do not matter, whoever awaited them.
\<close>

theorem stop_does_not_discard_cycle:
  assumes "list_all isResumption evs"
  shows "Set_elems (run w evs (stop s)) = Set_elems (run w evs s) \<and>
         cycles (run w evs (stop s)) = cycles (run w evs s) \<and>
         messages (run w evs (stop s)) = messages (run w evs s) \<and>
         registryLog (run w evs (stop s)) = registryLog (run w evs s) \<and>
         gitLog (run w evs (stop s)) = gitLog (run w evs s) \<and>
         (pendingStarts s = [] \<and> \<not> list_ex startWaiting (cycles s) \<longrightarrow>
            intervalId (run w evs (stop s)) = None)"
proof -
  have e: "withoutTimerAndStatusBar (run w evs (stop s)) = withoutTimerAndStatusBar (run w evs s)"
    using assms by (rule run_after_stop)
  have 1: "Set_elems (run w evs (stop s)) = Set_elems (run w evs s)"
    using arg_cong [OF e, of Set_elems] by simp
  have 2: "cycles (run w evs (stop s)) = cycles (run w evs s)"
    using arg_cong [OF e, of cycles] by simp
  have 3: "messages (run w evs (stop s)) = messages (run w evs s)"
    using arg_cong [OF e, of messages] by (simp add: erase_fields)
  have 4: "registryLog (run w evs (stop s)) = registryLog (run w evs s)"
    using arg_cong [OF e, of registryLog] by (simp add: erase_fields)
  have 5: "gitLog (run w evs (stop s)) = gitLog (run w evs s)"
    using arg_cong [OF e, of gitLog] by (simp add: erase_fields)
  have s: "cycles (stop s) = cycles s" "intervalId (stop s) = None"
    "pendingStarts (stop s) = pendingStarts s"
    by (simp_all add: stop_def split: option.splits)
  have 6: "pendingStarts s = [] \<and> \<not> list_ex startWaiting (cycles s) \<longrightarrow>
            intervalId (run w evs (stop s)) = None"
    using run_noStart [OF assms, of "stop s" w] s by simp
  from 1 2 3 4 5 6 show ?thesis by blast
qed

text \<open>
  The service of \<open>stateStarted\<close> was started: its timer is armed, the cycle \<open>start()\<close>
  awaited has ended, and the cycle of the timer tick is in flight. \<open>stop()\<close> is called,
  and the cycle in flight runs to its end: A is pending, the notification is shown, and
  the timer handle is still cleared.
\<close>

theorem stop_does_not_discard_cycle_witness:
  "list_all isResumption lateSchedule \<and>
   pendingStarts stateStarted = [] \<and> \<not> list_ex startWaiting (cycles stateStarted) \<and>
   intervalId stateStarted = Some 0 \<and>
   map awaitedBy (cycles stateStarted) = [FromStart (getConfig startupWorld), Detached] \<and>
   map outcome (cycles stateStarted) = [Some (Inr ()), None] \<and>
   Set_elems (run startupWorld lateSchedule (stop stateStarted)) = [''A''] \<and>
   messages (run startupWorld lateSchedule (stop stateStarted)) =
     [UpdatesAvailable 1 [''A''], UpdatesAvailable 1 [''A'']] \<and>
   intervalId (run startupWorld lateSchedule (stop stateStarted)) = None"
proof -
  have a: "list_all isResumption lateSchedule"
    by (simp add: lateSchedule_def)
  have m: "map (\<lambda>cyc. (outcome cyc, awaitedBy cyc)) (cycles stateStarted) =
      zip (map outcome (cycles stateStarted)) (map awaitedBy (cycles stateStarted))"
    by (simp add: zip_map_map [of outcome _ awaitedBy, simplified] map_eq_conv zip_same_conv_map)
  have "list_ex startWaiting (cycles stateStarted) =
      list_ex (\<lambda>(out, a). out = None \<and> a \<noteq> Detached)
        (map (\<lambda>cyc. (outcome cyc, awaitedBy cyc)) (cycles stateStarted))"
    by (simp add: list_ex_iff startWaiting_def)
  then have d: "\<not> list_ex startWaiting (cycles stateStarted)"
    unfolding m stateStarted_fields by simp
  from stop_does_not_discard_cycle [OF a, of startupWorld stateStarted] stateStarted_fields(1) d
  have "Set_elems (run startupWorld lateSchedule (stop stateStarted)) =
          Set_elems (run startupWorld lateSchedule stateStarted)"
    and "messages (run startupWorld lateSchedule (stop stateStarted)) =
          messages (run startupWorld lateSchedule stateStarted)"
    and "intervalId (run startupWorld lateSchedule (stop stateStarted)) = None"
    by blast+
  with a d stateStarted_fields stateStarted_late(1,2) show ?thesis
    by simp
qed

text \<open>
  C3 as the specification states it fails: the service is started, the timer tick starts
  a cycle, \<open>stop()\<close> is called before any task of it has settled (the pending-updates set
  is empty then), and the cycle runs to its end; A is pending afterwards.
\<close>

theorem stop_discards_late_results_counterexample:
  "outcome (cycles stateStarted ! 1) = None \<and>
   Set_elems (stop stateStarted) = [] \<and>
   \<not> (Set_elems (run startupWorld lateSchedule (stop stateStarted)) = [])"
  by (simp add: stateStarted_def lateSchedule_def startupWorld_def example_defs model_defs Let_def)

subsection \<open>One cycle on its own\<close>

text \<open>
  C2, as the code has it: in a cycle that runs on its own, for every eligible project
  (names being unique) that the cycle finds behind while \<open>autoMerge\<close> is on and whose pull
  succeeds, at the end of the cycle the registry has received exactly one
  \<open>updateGitProject\<close> call for it, and the project is still in the pending-updates set:
  nothing removes it before the next cycle clears the set.
\<close>

theorem autoMerge_keeps_project_pending:
  assumes "idle s0" and "list_all isSettle evs"
    and "outcome (cycles (run w (Call_checkForUpdates # evs) s0) ! length (cycles s0)) \<noteq> None"
    and "p \<in> set (gitProjectsOf w)" and "hasUpdate w p"
    and "autoMerge (getConfig w)" and "pullOk w p"
    and "distinct (map name (gitProjectsOf w))"
  shows "name p \<in> set (Set_elems (run w (Call_checkForUpdates # evs) s0)) \<and>
         count_list (registryLog (run w (Call_checkForUpdates # evs) s0)) (name p) =
           count_list (registryLog s0) (name p) + 1"
proof -
  from assms(4) have ne: "gitProjectsOf w \<noteq> []"
    by auto
  have fin: "outcome (cycles (run w evs (snd (checkForUpdates w Detached s0))) ! length (cycles s0)) \<noteq> None"
    using assms(3) by simp
  note ce = cycle_end [OF ne assms(1,2) fin]
  have "name p \<in> set (map name (filter (hasUpdate w) (gitProjectsOf w)))"
    using assms(4,5) by simp
  then have 1: "name p \<in> set (Set_elems (run w (Call_checkForUpdates # evs) s0))"
    by (simp add: ce(3))
  have "length (filter (\<lambda>q. name q = name p \<and> hasUpdate w q \<and> autoMerge (getConfig w) \<and> pullOk w q)
                  (gitProjectsOf w)) = 1"
    using count_unique_name [OF assms(8,4), of "\<lambda>q. hasUpdate w q \<and> autoMerge (getConfig w) \<and> pullOk w q"]
      assms(5,6,7) by simp
  then have 2: "count_list (registryLog (run w (Call_checkForUpdates # evs) s0)) (name p) =
           count_list (registryLog s0) (name p) + 1"
    using ce(6) [of "name p"] by simp
  from 1 2 show ?thesis ..
qed

theorem autoMerge_keeps_project_pending_witness:
  "idle newAutoSyncService \<and> list_all isSettle mergeSchedule \<and>
   outcome (cycles stateAfterMerge ! 0) \<noteq> None \<and>
   projectA \<in> set (gitProjectsOf (exampleWorld True ''0'' (Inr []))) \<and>
   hasUpdate (exampleWorld True ''0'' (Inr [])) projectA \<and>
   autoMerge (getConfig (exampleWorld True ''0'' (Inr []))) \<and>
   pullOk (exampleWorld True ''0'' (Inr [])) projectA \<and>
   ''A'' \<in> set (Set_elems stateAfterMerge) \<and>
   count_list (registryLog stateAfterMerge) ''A'' = 1"
proof -
  let ?w = "exampleWorld True ''0'' (Inr [])"
  have a1: "idle newAutoSyncService" and a2: "list_all isSettle mergeSchedule"
    and a4: "projectA \<in> set (gitProjectsOf ?w)" and a5: "hasUpdate ?w projectA"
    and a6: "autoMerge (getConfig ?w)" and a7: "pullOk ?w projectA"
    and a8: "distinct (map name (gitProjectsOf ?w))"
    by (simp_all add: exampleWorld_facts mergeSchedule_def) (simp add: projectA_def projectB_def)
  have o: "outcome (cycles stateAfterMerge ! 0) \<noteq> None"
    by (simp add: stateAfterMerge_fields)
  have a3: "outcome (cycles (run ?w (Call_checkForUpdates # mergeSchedule) newAutoSyncService) !
              length (cycles newAutoSyncService)) \<noteq> None"
    unfolding exampleWorld_facts(7) list.size(3) using o unfolding stateAfterMerge_def .
  from autoMerge_keeps_project_pending [OF a1 a2 a3 a4 a5 a6 a7 a8]
  have "name projectA \<in> set (Set_elems stateAfterMerge)"
    and "count_list (registryLog stateAfterMerge) (name projectA) =
           count_list (registryLog newAutoSyncService) (name projectA) + 1"
    unfolding stateAfterMerge_def by blast+
  then have "''A'' \<in> set (Set_elems stateAfterMerge)"
    and "count_list (registryLog stateAfterMerge) ''A'' = 1"
    by (simp_all add: projectA_def exampleWorld_facts(10))
  with a1 a2 o a4 a5 a6 a7 show ?thesis
    by simp
qed

text \<open>
  C2 as the specification states it fails: A is found behind in auto-merge mode, its pull
  succeeds and the registry is called once, and at the end of the cycle A is in the
  pending-updates set.
\<close>

theorem autoMerge_clears_pending_counterexample:
  "hasUpdate (exampleWorld True ''0'' (Inr [])) projectA \<and>
   pullOk (exampleWorld True ''0'' (Inr [])) projectA \<and>
   outcome (cycles stateAfterMerge ! 0) = Some (Inr ()) \<and>
   registryLog stateAfterMerge = [''A''] \<and>
   \<not> (''A'' \<notin> set (Set_elems stateAfterMerge))"
  by (simp add: exampleWorld_facts stateAfterMerge_fields)

text \<open>
  C8, as the code has it: a cycle that runs on its own (no other cycle is in flight when
  it starts, and only tasks settle while it runs) never checks a project that is
  disabled, or whose folder has no \<open>.git\<close> marker, when the cycle starts, even when its
  remote is ahead. Names and folders being unique, at every moment of the cycle its name
  is not in the pending-updates set, no task of the cycle is for it, and every git process
  in its folder was spawned before the cycle.
\<close>

theorem disabled_projects_excluded:
  assumes "idle s0" and "list_all isSettle evs"
    and "p \<in> set (getProjects w)"
    and "\<not> (projectEnabled p \<and> existsGit w (folderPath p))"
    and "distinct (map name (getProjects w))"
    and "distinct (map folderPath (getProjects w))"
  shows "name p \<notin> set (Set_elems (run w (Call_checkForUpdates # evs) s0)) \<and>
         (\<forall>cyc\<in>set (drop (length (cycles s0)) (cycles (run w (Call_checkForUpdates # evs) s0))).
            p \<notin> set (map project (tasks cyc))) \<and>
         (\<forall>g\<in>set (gitLog (run w (Call_checkForUpdates # evs) s0)).
            snd g = folderPath p \<longrightarrow> g \<in> set (gitLog s0))"
proof (cases "gitProjectsOf w = []")
  case True
  have r: "run w (Call_checkForUpdates # evs) s0 = snd (checkForUpdates w Detached s0)"
    using cycle_nothing [OF True assms(1,2)] by simp
  show ?thesis
    unfolding r by (simp add: checkForUpdates_nothing [OF True])
next
  case False
  let ?s = "run w (Call_checkForUpdates # evs) s0"
  let ?c = "length (cycles s0)"
  have r: "?s = run w evs (snd (checkForUpdates w Detached s0))"
    by simp
  note cr = cycle_running [OF False assms(1,2), of Detached, folded r]
  have n: "name p \<notin> set (map name (gitProjectsOf w))"
    using assms(3,4,5) by (rule not_eligible)
  have f: "folderPath p \<notin> set (map folderPath (gitProjectsOf w))"
    using assms(3,4,6) by (rule not_eligible)
  have np: "p \<notin> set (gitProjectsOf w)"
    using assms(4) by (simp add: gitProjectsOf_def)
  have 1: "name p \<notin> set (Set_elems ?s)"
    using cr(1) n by blast
  have d: "drop ?c (cycles ?s) = [cycles ?s ! ?c]"
    using cr(3) by (metis Cons_nth_drop_Suc drop_all lessI order_refl)
  have 2: "\<forall>cyc\<in>set (drop ?c (cycles ?s)). p \<notin> set (map project (tasks cyc))"
    unfolding d using np by (simp only: list.set ball_simps cr(4)) simp
  have 3: "\<forall>g\<in>set (gitLog ?s). snd g = folderPath p \<longrightarrow> g \<in> set (gitLog s0)"
    using cr(2) f by auto
  from 1 2 3 show ?thesis
    by blast
qed

theorem disabled_projects_excluded_witness:
  "idle newAutoSyncService \<and> list_all isSettle exampleSchedule \<and>
   projectB\<lparr>projectEnabled := False\<rparr> \<in> set (getProjects disabledWorld) \<and>
   projectC \<in> set (getProjects disabledWorld) \<and>
   existsGit disabledWorld (folderPath projectB) \<and>
   revListBehind disabledWorld (projectB\<lparr>projectEnabled := False\<rparr>) \<and>
   \<not> existsGit disabledWorld (folderPath projectC) \<and>
   ''B'' \<notin> set (Set_elems (run disabledWorld (Call_checkForUpdates # exampleSchedule)
                               newAutoSyncService)) \<and>
   ''C'' \<notin> set (Set_elems (run disabledWorld (Call_checkForUpdates # exampleSchedule)
                               newAutoSyncService))"
proof -
  let ?B = "projectB\<lparr>projectEnabled := False\<rparr>"
  have a1: "idle newAutoSyncService" and a2: "list_all isSettle exampleSchedule"
    by (simp_all add: exampleWorld_facts exampleSchedule_def)
  have b3: "?B \<in> set (getProjects disabledWorld)"
    and c3: "projectC \<in> set (getProjects disabledWorld)"
    and b4: "\<not> (projectEnabled ?B \<and> existsGit disabledWorld (folderPath ?B))"
    and c4: "\<not> (projectEnabled projectC \<and> existsGit disabledWorld (folderPath projectC))"
    and a5: "distinct (map name (getProjects disabledWorld))"
    and a6: "distinct (map folderPath (getProjects disabledWorld))"
    and e: "existsGit disabledWorld (folderPath projectB)"
      "revListBehind disabledWorld ?B"
      "\<not> existsGit disabledWorld (folderPath projectC)"
    by (simp_all add: disabledWorld_def example_defs world_defs)
  from disabled_projects_excluded [OF a1 a2 b3 b4 a5 a6]
  have "name ?B \<notin> set (Set_elems (run disabledWorld (Call_checkForUpdates # exampleSchedule)
                               newAutoSyncService))"
    by blast
  moreover from disabled_projects_excluded [OF a1 a2 c3 c4 a5 a6]
  have "name projectC \<notin> set (Set_elems (run disabledWorld (Call_checkForUpdates # exampleSchedule)
                               newAutoSyncService))"
    by blast
  ultimately have "''B'' \<notin> set (Set_elems (run disabledWorld (Call_checkForUpdates # exampleSchedule)
                               newAutoSyncService))"
    and "''C'' \<notin> set (Set_elems (run disabledWorld (Call_checkForUpdates # exampleSchedule)
                               newAutoSyncService))"
    by (simp_all add: projectB_def projectC_def)
  with a1 a2 b3 c3 e show ?thesis
    by blast
qed

text \<open>
  C8 as the specification states it, for every cycle, fails: \<open>checkForUpdates()\<close> has no
  re-entry guard, and a cycle started while B was still enabled goes on after B has been
  disabled. The cycle started after that has no task for B and runs to its end, and B is
  in the pending-updates set and in the list its notification shows.
\<close>

theorem disabled_project_pending_counterexample:
  "projectB\<lparr>projectEnabled := False\<rparr> \<in> set (getProjects disabledWorld) \<and>
   map project (tasks (cycles stateOverlap ! 1)) = [projectA] \<and>
   outcome (cycles stateOverlap ! 1) = Some (Inr ()) \<and>
   messages stateOverlap = [UpdatesAvailable 1 [''B'', ''A'']] \<and>
   \<not> (name (projectB\<lparr>projectEnabled := False\<rparr>) \<notin> set (Set_elems stateOverlap))"
proof -
  have "projectB\<lparr>projectEnabled := False\<rparr> \<in> set (getProjects disabledWorld)"
    and "name (projectB\<lparr>projectEnabled := False\<rparr>) = ''B''"
    by (simp_all add: disabledWorld_def example_defs)
  moreover have "map project (tasks (cycles stateOverlap ! 1)) = [projectA]"
    and "outcome (cycles stateOverlap ! 1) = Some (Inr ())"
    using arg_cong [OF stateOverlap_fields(1), of "\<lambda>xs. xs ! 1"]
      arg_cong [OF stateOverlap_fields(1), of length]
      arg_cong [OF stateOverlap_fields(2), of "\<lambda>xs. xs ! 1"]
    by simp_all
  ultimately show ?thesis
    by (simp add: stateOverlap_fields)
qed



text \<open>
  C7, as the code has it: in a cycle that runs on its own, when \<open>notifyOnUpdates\<close> is on
  and the pending-updates set is not empty at the end, the messages shown since the cycle
  started end with exactly one aggregate notification; it names the number of projects
  found behind and the elements of the set, phrased as completed in auto-merge mode and as
  actionable otherwise. The messages before it are exactly those of \<open>pullProject\<close>, one
  for each project it pulled, that is for each eligible project found behind in auto-merge
  mode (the success message of the project, or the error message when its pull or its
  registry call failed), in some order: there are none in notify-only mode.
\<close>

theorem one_aggregate_notification:
  assumes "idle s0" and "list_all isSettle evs"
    and "outcome (cycles (run w (Call_checkForUpdates # evs) s0) ! length (cycles s0)) \<noteq> None"
    and "notifyOnUpdates (getConfig w)"
    and "Set_elems (run w (Call_checkForUpdates # evs) s0) \<noteq> []"
  shows "\<exists>ind. list_all isIndividual ind \<and>
           (\<not> autoMerge (getConfig w) \<longrightarrow> ind = []) \<and>
           (\<forall>m. count_list ind m =
                  count_list (map (pullMessage w)
                                (filter (\<lambda>p. hasUpdate w p \<and> autoMerge (getConfig w))
                                   (gitProjectsOf w))) m) \<and>
           messages (run w (Call_checkForUpdates # evs) s0) =
             messages s0 @ ind @
             [if autoMerge (getConfig w)
              then AutoSyncedAggregate (length (filter (hasUpdate w) (gitProjectsOf w)))
                     (Set_elems (run w (Call_checkForUpdates # evs) s0))
              else UpdatesAvailable (length (filter (hasUpdate w) (gitProjectsOf w)))
                     (Set_elems (run w (Call_checkForUpdates # evs) s0))]"
proof -
  define s where "s = run w (Call_checkForUpdates # evs) s0"
  have r: "run w evs (snd (checkForUpdates w Detached s0)) = s"
    by (simp add: s_def)
  have o: "outcome (cycles s ! length (cycles s0)) \<noteq> None"
    using assms(3) unfolding s_def .
  have pe: "Set_elems s \<noteq> []"
    using assms(5) unfolding s_def .
  have ne: "gitProjectsOf w \<noteq> []"
  proof
    assume e: "gitProjectsOf w = []"
    have "s = snd (checkForUpdates w Detached s0)"
      using cycle_nothing [OF e assms(1,2), of Detached] r by simp
    with pe show False
      by (simp add: checkForUpdates_nothing(3) [OF e])
  qed
  have fin: "outcome (cycles (run w evs (snd (checkForUpdates w Detached s0))) ! length (cycles s0)) \<noteq> None"
    unfolding r by (rule o)
  note ce = cycle_end [OF ne assms(1,2) fin, unfolded r]
  note cr = cycle_running [OF ne assms(1,2), of Detached, unfolded r]
  have "filter (hasUpdate w) (gitProjectsOf w) \<noteq> []"
  proof
    assume "filter (hasUpdate w) (gitProjectsOf w) = []"
    with ce(3) have "set (Set_elems s) = {}"
      by simp
    with pe show False
      by simp
  qed
  then have pos: "0 < length (filter (hasUpdate w) (gitProjectsOf w))"
    by simp
  have agg: "aggregatePart (length (cycles s0)) s =
      [if autoMerge (getConfig w)
       then AutoSyncedAggregate (length (filter (hasUpdate w) (gitProjectsOf w))) (Set_elems s)
       else UpdatesAvailable (length (filter (hasUpdate w) (gitProjectsOf w))) (Set_elems s)]"
    using o pos assms(4) by (simp add: aggregatePart_def ce(4,5))
  note ps = pulled_settled [OF ce(7), of w _ "getConfig w", unfolded cr(4)]
  from cr(5) have "\<exists>ind. list_all isIndividual ind \<and>
           (\<not> autoMerge (getConfig w) \<longrightarrow> ind = []) \<and>
           (\<forall>m. count_list ind m =
                  count_list (map (pullMessage w)
                                (filter (\<lambda>p. hasUpdate w p \<and> autoMerge (getConfig w))
                                   (gitProjectsOf w))) m) \<and>
           messages s =
             messages s0 @ ind @
             [if autoMerge (getConfig w)
              then AutoSyncedAggregate (length (filter (hasUpdate w) (gitProjectsOf w))) (Set_elems s)
              else UpdatesAvailable (length (filter (hasUpdate w) (gitProjectsOf w))) (Set_elems s)]"
    unfolding agg ps .
  then show ?thesis
    unfolding s_def .
qed

theorem one_aggregate_notification_witness:
  "idle newAutoSyncService \<and> list_all isSettle mergeBothSchedule \<and>
   outcome (cycles stateAfterMergeBoth ! 0) \<noteq> None \<and>
   notifyOnUpdates (getConfig (exampleWorld True ''5'' (Inr []))) \<and>
   Set_elems stateAfterMergeBoth \<noteq> [] \<and>
   (\<exists>ind. list_all isIndividual ind \<and>
      count_list ind (AutoSynced ''A'') = 1 \<and> count_list ind (AutoSynced ''B'') = 1 \<and>
      count_list ind (AutoSynced ''C'') = 0 \<and>
      messages stateAfterMergeBoth = ind @ [AutoSyncedAggregate 2 [''A'', ''B'']])"
proof -
  let ?w = "exampleWorld True ''5'' (Inr [])"
  have a1: "idle newAutoSyncService" and a2: "list_all isSettle mergeBothSchedule"
    and a4: "notifyOnUpdates (getConfig ?w)"
    by (simp_all add: exampleWorld_facts mergeBothSchedule_def)
  have o: "outcome (cycles stateAfterMergeBoth ! 0) \<noteq> None"
    and a5: "Set_elems stateAfterMergeBoth \<noteq> []"
    by (simp_all add: stateAfterMergeBoth_fields)
  have a3: "outcome (cycles (run ?w (Call_checkForUpdates # mergeBothSchedule) newAutoSyncService) !
              length (cycles newAutoSyncService)) \<noteq> None"
    unfolding exampleWorld_facts(7) list.size(3) using o unfolding stateAfterMergeBoth_def .
  have n: "length (filter (hasUpdate ?w) (gitProjectsOf ?w)) = 2"
    by (simp add: example_defs world_defs)
  have p: "map (pullMessage ?w)
             (filter (\<lambda>p. hasUpdate ?w p \<and> autoMerge (getConfig ?w)) (gitProjectsOf ?w)) =
           [AutoSynced ''A'', AutoSynced ''B'']"
    by (simp add: example_defs world_defs pullMessage_def)
  from one_aggregate_notification [OF a1 a2 a3 a4 a5 [unfolded stateAfterMergeBoth_def]]
  obtain ind where "list_all isIndividual ind"
    and "\<And>m. count_list ind m = count_list [AutoSynced ''A'', AutoSynced ''B''] m"
    and "messages stateAfterMergeBoth = ind @ [AutoSyncedAggregate 2 [''A'', ''B'']]"
    unfolding stateAfterMergeBoth_def [symmetric] n p
    by (auto simp: exampleWorld_facts(4,8) stateAfterMergeBoth_fields(2))
  then have "\<exists>ind. list_all isIndividual ind \<and>
      count_list ind (AutoSynced ''A'') = 1 \<and> count_list ind (AutoSynced ''B'') = 1 \<and>
      count_list ind (AutoSynced ''C'') = 0 \<and>
      messages stateAfterMergeBoth = ind @ [AutoSyncedAggregate 2 [''A'', ''B'']]"
    by (intro exI [of _ ind]) simp
  with a1 a2 o a4 a5 show ?thesis
    by blast
qed

text \<open>
  C7 as the specification states it fails: in auto-merge mode with A and B both behind,
  one cycle shows a notification for A, a notification for B and then the aggregate one.
\<close>

theorem one_notification_per_cycle_counterexample:
  "notifyOnUpdates (getConfig (exampleWorld True ''5'' (Inr []))) \<and>
   Set_elems stateAfterMergeBoth = [''A'', ''B''] \<and>
   messages stateAfterMergeBoth =
     [AutoSynced ''A'', AutoSynced ''B'', AutoSyncedAggregate 2 [''A'', ''B'']]"
  by (simp add: exampleWorld_facts stateAfterMergeBoth_fields)

text \<open>
  C5, as the code has it: in a cycle with at least one eligible project that runs on its
  own, whatever the git processes answer,
  \<^item> the promise of \<open>checkForUpdates()\<close> is never rejected, and resuming every task three
    times in turn fulfils it;
  \<^item> at the end the pending-updates set holds exactly the names of the eligible projects
    whose own fetch and rev-list found them behind, so no project's failure touches the
    check of another;
  \<^item> a failure of the fetch or of rev-list makes \<open>hasUpdate\<close> false for that project and
    is logged with \<open>console.error\<close>;
  \<^item> a failure of the pull is caught too, logged and shown as an error message, but by
    then the project has been found behind: it stays in the pending-updates set.
\<close>

theorem failures_are_isolated:
  assumes "idle s0" and "gitProjectsOf w \<noteq> []" and "list_all isSettle evs"
  shows "outcome (cycles (run w (Call_checkForUpdates #
                    roundRobin (length (cycles s0)) (length (gitProjectsOf w))) s0) !
                  length (cycles s0)) = Some (Inr ()) \<and>
         (\<forall>e. outcome (cycles (run w (Call_checkForUpdates # evs) s0) ! length (cycles s0)) \<noteq>
              Some (Inl e)) \<and>
         (outcome (cycles (run w (Call_checkForUpdates # evs) s0) ! length (cycles s0)) \<noteq> None \<longrightarrow>
          set (Set_elems (run w (Call_checkForUpdates # evs) s0)) =
            set (map name (filter (hasUpdate w) (gitProjectsOf w))) \<and>
          (\<forall>p\<in>set (gitProjectsOf w).
             (\<forall>e. checkFailure w p = Some e \<longrightarrow>
                \<not> hasUpdate w p \<and>
                ErrorCheckingForUpdates e \<in>
                  set (consoleErrors (run w (Call_checkForUpdates # evs) s0))) \<and>
             (\<forall>e. hasUpdate w p \<and> autoMerge (getConfig w) \<and>
                  execFileGit w [''pull'', ''origin''] (folderPath p) = Inl e \<longrightarrow>
                name p \<in> set (Set_elems (run w (Call_checkForUpdates # evs) s0)) \<and>
                AutoSyncFailed (name p) e \<in>
                  set (messages (run w (Call_checkForUpdates # evs) s0)) \<and>
                FailedToPull (name p) e \<in>
                  set (consoleErrors (run w (Call_checkForUpdates # evs) s0)))))"
proof -
  let ?c = "length (cycles s0)"
  let ?b = "snd (checkForUpdates w Detached s0)"
  define s where "s = run w (Call_checkForUpdates # evs) s0"
  have r: "run w evs ?b = s"
    by (simp add: s_def)
  note st = checkForUpdates_started [OF assms(2), of Detached s0]
  have inv0: "cycleInv w ?c ?b ?b"
    using assms(2,1) by (rule cycleInv_started)
  then have core0: "cycleCore w ?c ?b"
    by (simp add: cycleInv_def)
  have len0: "length (tasks (cycles ?b ! ?c)) = length (gitProjectsOf w)"
    by (simp add: st(2))
  have 1: "outcome (cycles (run w (Call_checkForUpdates #
                    roundRobin ?c (length (gitProjectsOf w))) s0) ! ?c) = Some (Inr ())"
    using roundRobin_settles [OF core0 len0] by simp
  have ce: "cycleCore w ?c s \<and> errorsInv w ?c s"
    using run_core_errors [OF assms(3) core0 errorsInv_started [OF assms(2)]] r by simp
  then have out: "outcome (cycles s ! ?c) =
      (if settledAll (tasks (cycles s ! ?c)) then Some (Inr ()) else None)"
    by (simp add: cycleCore_def)
  then have 2: "\<forall>e. outcome (cycles s ! ?c) \<noteq> Some (Inl e)"
    by simp
  have 3: "outcome (cycles s ! ?c) \<noteq> None \<longrightarrow>
          set (Set_elems s) = set (map name (filter (hasUpdate w) (gitProjectsOf w))) \<and>
          (\<forall>p\<in>set (gitProjectsOf w).
             (\<forall>e. checkFailure w p = Some e \<longrightarrow>
                \<not> hasUpdate w p \<and> ErrorCheckingForUpdates e \<in> set (consoleErrors s)) \<and>
             (\<forall>e. hasUpdate w p \<and> autoMerge (getConfig w) \<and>
                  execFileGit w [''pull'', ''origin''] (folderPath p) = Inl e \<longrightarrow>
                name p \<in> set (Set_elems s) \<and>
                AutoSyncFailed (name p) e \<in> set (messages s) \<and>
                FailedToPull (name p) e \<in> set (consoleErrors s)))"
  proof
    assume o: "outcome (cycles s ! ?c) \<noteq> None"
    then have fin: "outcome (cycles (run w evs ?b) ! ?c) \<noteq> None"
      unfolding r .
    note fe = cycle_end [OF assms(2,1,3) fin, unfolded r]
    note cr = cycle_running [OF assms(2,1,3), of Detached, unfolded r]
    from o out have all: "settledAll (tasks (cycles s ! ?c))"
      by (simp split: if_splits)
    have facts: "\<forall>p\<in>set (gitProjectsOf w). settledFacts w (getConfig w) s p"
    proof
      fix p assume "p \<in> set (gitProjectsOf w)"
      then have "p \<in> set (map project (tasks (cycles s ! ?c)))"
        by (simp only: cr(4))
      then obtain t where t: "t \<in> set (tasks (cycles s ! ?c))" "project t = p"
        by auto
      with all have "isSettled (stage t)"
        by (simp add: settledAll_def list_all_iff)
      with ce t show "settledFacts w (getConfig w) s p"
        by (auto simp: errorsInv_def fe(5))
    qed
    have "\<forall>p\<in>set (gitProjectsOf w).
             (\<forall>e. checkFailure w p = Some e \<longrightarrow>
                \<not> hasUpdate w p \<and> ErrorCheckingForUpdates e \<in> set (consoleErrors s)) \<and>
             (\<forall>e. hasUpdate w p \<and> autoMerge (getConfig w) \<and>
                  execFileGit w [''pull'', ''origin''] (folderPath p) = Inl e \<longrightarrow>
                name p \<in> set (Set_elems s) \<and>
                AutoSyncFailed (name p) e \<in> set (messages s) \<and>
                FailedToPull (name p) e \<in> set (consoleErrors s))"
    proof
      fix p assume p: "p \<in> set (gitProjectsOf w)"
      with facts have f: "settledFacts w (getConfig w) s p"
        by simp
      have "hasUpdate w p \<longrightarrow> name p \<in> set (Set_elems s)"
        using p by (auto simp: fe(3))
      with f show "(\<forall>e. checkFailure w p = Some e \<longrightarrow>
                \<not> hasUpdate w p \<and> ErrorCheckingForUpdates e \<in> set (consoleErrors s)) \<and>
             (\<forall>e. hasUpdate w p \<and> autoMerge (getConfig w) \<and>
                  execFileGit w [''pull'', ''origin''] (folderPath p) = Inl e \<longrightarrow>
                name p \<in> set (Set_elems s) \<and>
                AutoSyncFailed (name p) e \<in> set (messages s) \<and>
                FailedToPull (name p) e \<in> set (consoleErrors s))"
        unfolding settledFacts_def using checkFailure_no_update [of w p] by blast
    qed
    with fe(3) show "set (Set_elems s) = set (map name (filter (hasUpdate w) (gitProjectsOf w))) \<and>
          (\<forall>p\<in>set (gitProjectsOf w).
             (\<forall>e. checkFailure w p = Some e \<longrightarrow>
                \<not> hasUpdate w p \<and> ErrorCheckingForUpdates e \<in> set (consoleErrors s)) \<and>
             (\<forall>e. hasUpdate w p \<and> autoMerge (getConfig w) \<and>
                  execFileGit w [''pull'', ''origin''] (folderPath p) = Inl e \<longrightarrow>
                name p \<in> set (Set_elems s) \<and>
                AutoSyncFailed (name p) e \<in> set (messages s) \<and>
                FailedToPull (name p) e \<in> set (consoleErrors s)))"
      by simp
  qed
  from 1 2 3 show ?thesis
    unfolding s_def by (intro conjI)
qed

theorem failures_are_isolated_witness:
  "idle newAutoSyncService \<and> gitProjectsOf failingWorld \<noteq> [] \<and>
   list_all isSettle mergeSchedule \<and>
   outcome (cycles (run failingWorld (Call_checkForUpdates # roundRobin 0 2) newAutoSyncService) ! 0) =
     Some (Inr ()) \<and>
   outcome (cycles stateAfterFailures ! 0) \<noteq> None \<and>
   checkFailure failingWorld projectB = Some ''unreachable'' \<and>
   ErrorCheckingForUpdates ''unreachable'' \<in> set (consoleErrors stateAfterFailures) \<and>
   execFileGit failingWorld [''pull'', ''origin''] (folderPath projectA) = Inl ''CONFLICT'' \<and>
   ''A'' \<in> set (Set_elems stateAfterFailures) \<and>
   AutoSyncFailed ''A'' ''CONFLICT'' \<in> set (messages stateAfterFailures)"
proof -
  have a1: "idle newAutoSyncService" and a2: "gitProjectsOf failingWorld \<noteq> []"
    and a3: "list_all isSettle mergeSchedule"
    by (simp_all add: exampleWorld_facts failingWorld_facts mergeSchedule_def)
  have o: "outcome (cycles stateAfterFailures ! 0) \<noteq> None"
    by (simp add: stateAfterFailures_fields)
  have pa: "projectA \<in> set (gitProjectsOf failingWorld)"
    and pb: "projectB \<in> set (gitProjectsOf failingWorld)"
    by (simp_all add: failingWorld_facts)
  note t = failures_are_isolated [OF a1 a2 a3, unfolded exampleWorld_facts(7) list.size(3),
      folded stateAfterFailures_def]
  from t have 1: "outcome (cycles (run failingWorld
        (Call_checkForUpdates # roundRobin 0 (length (gitProjectsOf failingWorld)))
        newAutoSyncService) ! 0) = Some (Inr ())"
    by blast
  from t o have 3: "\<forall>p\<in>set (gitProjectsOf failingWorld).
             (\<forall>e. checkFailure failingWorld p = Some e \<longrightarrow>
                \<not> hasUpdate failingWorld p \<and>
                ErrorCheckingForUpdates e \<in> set (consoleErrors stateAfterFailures)) \<and>
             (\<forall>e. hasUpdate failingWorld p \<and> autoMerge (getConfig failingWorld) \<and>
                  execFileGit failingWorld [''pull'', ''origin''] (folderPath p) = Inl e \<longrightarrow>
                name p \<in> set (Set_elems stateAfterFailures) \<and>
                AutoSyncFailed (name p) e \<in> set (messages stateAfterFailures) \<and>
                FailedToPull (name p) e \<in> set (consoleErrors stateAfterFailures))"
    by blast
  from 3 pb failingWorld_facts(5)
  have b: "ErrorCheckingForUpdates ''unreachable'' \<in> set (consoleErrors stateAfterFailures)"
    by blast
  from 3 pa failingWorld_facts(2,3,4)
  have "name projectA \<in> set (Set_elems stateAfterFailures) \<and>
        AutoSyncFailed (name projectA) ''CONFLICT'' \<in> set (messages stateAfterFailures)"
    by blast
  then have a: "''A'' \<in> set (Set_elems stateAfterFailures)"
    "AutoSyncFailed ''A'' ''CONFLICT'' \<in> set (messages stateAfterFailures)"
    by (simp_all add: projectA_def)
  have n: "length (gitProjectsOf failingWorld) = 2"
    by (simp add: failingWorld_facts(1))
  from 1 have rr: "outcome (cycles (run failingWorld (Call_checkForUpdates # roundRobin 0 2)
        newAutoSyncService) ! 0) = Some (Inr ())"
    unfolding n .
  from a1 a2 a3 rr o failingWorld_facts(5) b failingWorld_facts(4) a show ?thesis
    by blast
qed

text \<open>
  C5 as the specification states it fails for the pull: the pull of A is rejected, and A
  has been counted as an update and is in the pending-updates set at the end of the
  cycle; \<open>hasUpdate\<close> was not turned into false.
\<close>

theorem pull_failure_keeps_update_counterexample:
  "execFileGit failingWorld [''pull'', ''origin''] (folderPath projectA) = Inl ''CONFLICT'' \<and>
   outcome (cycles stateAfterFailures ! 0) = Some (Inr ()) \<and>
   updatesFound (cycles stateAfterFailures ! 0) = 1 \<and>
   \<not> (''A'' \<notin> set (Set_elems stateAfterFailures))"
  by (simp add: failingWorld_facts stateAfterFailures_fields)

end
